theory Spec2Isabelle
  imports Complex_Main "HOL-Library.AList"
begin

section \<open>Python strings\<close>

text \<open>
  A Python \<open>str\<close> is a sequence of Unicode code points. A code point is a natural number
  and a string a list of them; \<open>str\<close> reads a literal, one code point per character.
\<close>

type_synonym cp = nat

type_synonym ustr = "cp list"

definition str :: "string \<Rightarrow> ustr" where
  "str cs = map of_char cs"

abbreviation NL :: cp where "NL \<equiv> 10"
abbreviation SP :: cp where "SP \<equiv> 32"
abbreviation DQUOTE :: cp where "DQUOTE \<equiv> 34"
abbreviation HASH :: cp where "HASH \<equiv> 35"
abbreviation SQUOTE :: cp where "SQUOTE \<equiv> 39"
abbreviation STAR :: cp where "STAR \<equiv> 42"
abbreviation COMMA :: cp where "COMMA \<equiv> 44"
abbreviation HYPHEN :: cp where "HYPHEN \<equiv> 45"
abbreviation DOT :: cp where "DOT \<equiv> 46"
abbreviation QMARK :: cp where "QMARK \<equiv> 63"
abbreviation BQUOTE :: cp where "BQUOTE \<equiv> 96"

text \<open>
  The classification and the case mapping of the code points below 256 (ASCII and the
  Latin-1 supplement) are written out as Python has them. For the other code points they
  come from the Unicode character database, which is not part of the program: it is the
  parameter \<open>U\<close> of every function that depends on it. The case mappings of the database
  are taken on whole strings, because \<open>str.lower\<close> looks at the neighbours of a Greek
  capital sigma.
\<close>

record ucd =
  isspace_ext :: "cp \<Rightarrow> bool"
  isalnum_ext :: "cp \<Rightarrow> bool"
  lower_ext :: "ustr \<Rightarrow> ustr"
  upper_ext :: "ustr \<Rightarrow> ustr"
  title_ext :: "ustr \<Rightarrow> ustr"

definition latin1 :: "cp \<Rightarrow> bool" where
  "latin1 c \<longleftrightarrow> c < 256"

text \<open>\<open>str.isspace\<close> below 256: the controls \<open>0x09\<close> to \<open>0x0D\<close> and \<open>0x1C\<close> to \<open>0x1F\<close>,
  the space, the next-line control \<open>0x85\<close> and the no-break space \<open>0xA0\<close>. \<open>str.strip()\<close>
  removes the same characters.\<close>

definition latin1_isspace :: "cp \<Rightarrow> bool" where
  "latin1_isspace c \<longleftrightarrow> (9 \<le> c \<and> c \<le> 13) \<or> (28 \<le> c \<and> c \<le> 32) \<or> c = 133 \<or> c = 160"

text \<open>\<open>str.isalnum\<close> below 256: the digits, the letters of ASCII and of Latin-1, the
  ordinal indicators, the micro sign, the superscript digits and the vulgar fractions.\<close>

definition latin1_isalnum :: "cp \<Rightarrow> bool" where
  "latin1_isalnum c \<longleftrightarrow>
     (48 \<le> c \<and> c \<le> 57) \<or> (65 \<le> c \<and> c \<le> 90) \<or> (97 \<le> c \<and> c \<le> 122) \<or>
     c = 170 \<or> c = 178 \<or> c = 179 \<or> c = 181 \<or> c = 185 \<or> c = 186 \<or>
     (188 \<le> c \<and> c \<le> 190) \<or> (192 \<le> c \<and> c \<le> 214) \<or> (216 \<le> c \<and> c \<le> 246) \<or>
     (248 \<le> c \<and> c \<le> 255)"

text \<open>The cased code points below 256, which \<open>str.title\<close> consults.\<close>

definition latin1_cased :: "cp \<Rightarrow> bool" where
  "latin1_cased c \<longleftrightarrow>
     (65 \<le> c \<and> c \<le> 90) \<or> (97 \<le> c \<and> c \<le> 122) \<or> c = 170 \<or> c = 181 \<or> c = 186 \<or>
     (192 \<le> c \<and> c \<le> 214) \<or> (216 \<le> c \<and> c \<le> 246) \<or> (248 \<le> c \<and> c \<le> 255)"

definition latin1_lower :: "cp \<Rightarrow> cp" where
  "latin1_lower c =
     (if (65 \<le> c \<and> c \<le> 90) \<or> (192 \<le> c \<and> c \<le> 214) \<or> (216 \<le> c \<and> c \<le> 222)
      then c + 32 else c)"

text \<open>Upper-casing leaves Latin-1 at the micro sign (to the Greek capital mu) and at
  \<open>0xFF\<close> (to \<open>0x178\<close>), and turns the sharp s into two letters.\<close>

definition latin1_upper :: "cp \<Rightarrow> ustr" where
  "latin1_upper c =
     (if (97 \<le> c \<and> c \<le> 122) \<or> (224 \<le> c \<and> c \<le> 246) \<or> (248 \<le> c \<and> c \<le> 254)
      then [c - 32]
      else if c = 223 then [83, 83]
      else if c = 181 then [924]
      else if c = 255 then [376]
      else [c])"

definition latin1_title :: "cp \<Rightarrow> ustr" where
  "latin1_title c = (if c = 223 then [83, 115] else latin1_upper c)"

definition isspace :: "ucd \<Rightarrow> cp \<Rightarrow> bool" where
  "isspace U c = (if latin1 c then latin1_isspace c else isspace_ext U c)"

definition isalnum :: "ucd \<Rightarrow> cp \<Rightarrow> bool" where
  "isalnum U c = (if latin1 c then latin1_isalnum c else isalnum_ext U c)"

definition lower :: "ucd \<Rightarrow> ustr \<Rightarrow> ustr" where
  "lower U s = (if list_all latin1 s then map latin1_lower s else lower_ext U s)"

definition upper :: "ucd \<Rightarrow> ustr \<Rightarrow> ustr" where
  "upper U s = (if list_all latin1 s then concat (map latin1_upper s) else upper_ext U s)"

text \<open>\<open>s.title()\<close>: a character is title-cased when the character before it is not
  cased (or there is none), and lower-cased otherwise.\<close>

fun title_from :: "bool \<Rightarrow> ustr \<Rightarrow> ustr" where
  "title_from previous_is_cased [] = []"
| "title_from previous_is_cased (c # cs) =
     (if previous_is_cased then [latin1_lower c] else latin1_title c)
     @ title_from (latin1_cased c) cs"

definition py_title :: "ucd \<Rightarrow> ustr \<Rightarrow> ustr" where
  "py_title U s = (if list_all latin1 s then title_from False s else title_ext U s)"

text \<open>\<open>s.lstrip(chars)\<close>, \<open>s.rstrip(chars)\<close> and \<open>s.strip(chars)\<close>, the character set
  given as a predicate; \<open>s.strip()\<close> is \<open>strip (isspace U)\<close>.\<close>

definition lstrip :: "(cp \<Rightarrow> bool) \<Rightarrow> ustr \<Rightarrow> ustr" where
  "lstrip P s = dropWhile P s"

definition rstrip :: "(cp \<Rightarrow> bool) \<Rightarrow> ustr \<Rightarrow> ustr" where
  "rstrip P s = rev (dropWhile P (rev s))"

definition strip :: "(cp \<Rightarrow> bool) \<Rightarrow> ustr \<Rightarrow> ustr" where
  "strip P s = rstrip P (lstrip P s)"

definition startswith :: "ustr \<Rightarrow> ustr \<Rightarrow> bool" where
  "startswith s p \<longleftrightarrow> take (length p) s = p"

text \<open>\<open>s.split('\n')\<close>: the pieces between line feeds; never an empty list.\<close>

fun split_nl :: "ustr \<Rightarrow> ustr list" where
  "split_nl [] = [[]]"
| "split_nl (c # cs) =
     (if c = NL then [] # split_nl cs
      else (case split_nl cs of l # ls \<Rightarrow> (c # l) # ls | [] \<Rightarrow> [[c]]))"

text \<open>\<open>s.replace('-', ' ')\<close>.\<close>

definition replace_hyphen :: "ustr \<Rightarrow> ustr" where
  "replace_hyphen s = map (\<lambda>c. if c = HYPHEN then SP else c) s"

section \<open>Whitespace Normalizer\<close>

text \<open>
  \<open>re.sub(r'(?<!\n)\n(?!\n)', ' ', s)\<close>: a line feed is replaced by a space when the
  character before it (if any) and the character after it (if any) are not line feeds. Both
  look-arounds read the subject string, so the function carries the previous character of
  the input, not of the output.
\<close>

fun sub_lone_nl :: "cp option \<Rightarrow> ustr \<Rightarrow> ustr" where
  "sub_lone_nl prev [] = []"
| "sub_lone_nl prev (c # cs) =
     (if c = NL \<and> prev \<noteq> Some NL \<and> (case cs of [] \<Rightarrow> True | d # _ \<Rightarrow> d \<noteq> NL)
      then SP else c) # sub_lone_nl (Some c) cs"

text \<open>\<open>re.sub(x + '+', x, s)\<close> for a single character \<open>x\<close>: every maximal run of \<open>x\<close>
  is replaced by one \<open>x\<close>.\<close>

function sub_run :: "cp \<Rightarrow> ustr \<Rightarrow> ustr" where
  "sub_run x [] = []"
| "sub_run x (c # cs) =
     (if c = x then x # sub_run x (dropWhile (\<lambda>d. d = x) cs) else c # sub_run x cs)"
  by pat_completeness auto
termination
  by (relation "measure (\<lambda>(x, s). length s)")
     (auto simp: le_imp_less_Suc length_dropWhile_le)

definition parse_whitespace :: "ustr \<Rightarrow> ustr" where
  "parse_whitespace s = sub_run SP (sub_run NL (sub_lone_nl None s))"

text \<open>Two line feeds next to each other somewhere in the string.\<close>

fun has_nl_pair :: "ustr \<Rightarrow> bool" where
  "has_nl_pair (c # d # cs) \<longleftrightarrow> (c = NL \<and> d = NL) \<or> has_nl_pair (d # cs)"
| "has_nl_pair _ \<longleftrightarrow> False"

section \<open>Sentence Formatter\<close>

text \<open>\<open>s[:1].upper() + s[1:]\<close>.\<close>

definition caps :: "ucd \<Rightarrow> ustr \<Rightarrow> ustr" where
  "caps U s = upper U (take 1 s) @ drop 1 s"

text \<open>\<open>s and s[-1].isalnum()\<close> guards the read of the last character by the emptiness
  test, as the source does.\<close>

definition format_sent :: "ucd \<Rightarrow> ustr \<Rightarrow> ustr" where
  "format_sent U s0 =
     (let s = caps U s0
      in if s \<noteq> [] \<and> isalnum U (last s) then s @ [DOT] else s)"

section \<open>Section Splitter\<close>

text \<open>The exceptions the modelled functions can raise.\<close>

datatype error = KeyError | ValueError | StopIteration

text \<open>
  An \<open>OrderedDict\<close> from heading label to body text is an association list in insertion
  order. \<open>d[k] = v\<close> is \<^const>\<open>AList.update\<close>: it overwrites the value of a present key in
  place and appends an absent key at the end. \<open>d[k]\<close> raises \<open>KeyError\<close> on an absent key.
\<close>

type_synonym sections = "(ustr \<times> ustr) list"

definition getitem :: "sections \<Rightarrow> ustr \<Rightarrow> error + ustr" where
  "getitem sections k = (case map_of sections k of None \<Rightarrow> Inl KeyError | Some v \<Rightarrow> Inr v)"

text \<open>
  One iteration of the loop over the lines, on the state \<open>(last_section, sections)\<close>:
  the line is stripped of white space; a line that then starts with \<open>#\<close> makes its label
  (stripped of \<open>#\<close> and spaces at both ends) the cursor and binds it to the empty body; any
  other line is appended, after a line feed, to the body bound to the cursor.
\<close>

definition heading_char :: "cp \<Rightarrow> bool" where
  "heading_char c \<longleftrightarrow> c = HASH \<or> c = SP"

fun extract_step :: "ucd \<Rightarrow> ustr \<times> sections \<Rightarrow> ustr \<Rightarrow> error + ustr \<times> sections" where
  "extract_step U (last_section, sections) raw =
     (let line = strip (isspace U) raw
      in if startswith line [HASH]
         then (let last_section' = strip heading_char line
               in Inr (last_section', AList.update last_section' [] sections))
         else (case getitem sections last_section of
                 Inl e \<Rightarrow> Inl e
               | Inr body \<Rightarrow>
                   Inr (last_section, AList.update last_section (body @ NL # line) sections)))"

fun extract_loop :: "ucd \<Rightarrow> ustr \<times> sections \<Rightarrow> ustr list \<Rightarrow> error + ustr \<times> sections" where
  "extract_loop U st [] = Inr st"
| "extract_loop U st (raw # raws) =
     (case extract_step U st raw of
        Inl e \<Rightarrow> Inl e
      | Inr st' \<Rightarrow> extract_loop U st' raws)"

text \<open>The second loop strips every body; the keys and their order stay.\<close>

definition strip_bodies :: "ucd \<Rightarrow> sections \<Rightarrow> sections" where
  "strip_bodies U sections = map (\<lambda>(name, body). (name, strip (isspace U) body)) sections"

text \<open>\<open>sections[''] = sections.pop('')\<close>: the pop is evaluated first and raises on an
  absent key; the assignment then appends the key at the end.\<close>

definition shift_to_end :: "sections \<Rightarrow> error + sections" where
  "shift_to_end sections =
     (case getitem sections [] of
        Inl e \<Rightarrow> Inl e
      | Inr body \<Rightarrow> Inr (AList.update [] body (AList.delete [] sections)))"

definition extract_lines :: "ucd \<Rightarrow> ustr list \<Rightarrow> error + sections" where
  "extract_lines U raws =
     (case extract_loop U ([], [([], [])]) raws of
        Inl e \<Rightarrow> Inl e
      | Inr (last_section, sections) \<Rightarrow> shift_to_end (strip_bodies U sections))"

definition extract_sections :: "ucd \<Rightarrow> ustr \<Rightarrow> error + sections" where
  "extract_sections U readme_content = extract_lines U (split_nl readme_content)"

text \<open>A raw line that the loop takes for a heading, and the label it derives from it.\<close>

definition is_heading :: "ucd \<Rightarrow> ustr \<Rightarrow> bool" where
  "is_heading U raw \<longleftrightarrow> startswith (strip (isspace U) raw) [HASH]"

definition label_of :: "ucd \<Rightarrow> ustr \<Rightarrow> ustr" where
  "label_of U raw = strip heading_char (strip (isspace U) raw)"

text \<open>What a run of body lines adds to an accumulator: each stripped line after a line
  feed.\<close>

definition body_text :: "ucd \<Rightarrow> ustr list \<Rightarrow> ustr" where
  "body_text U raws = concat (map (\<lambda>raw. NL # strip (isspace U) raw) raws)"

section \<open>Similarity ratio\<close>

text \<open>
  \<open>difflib.SequenceMatcher(a=a, b=b).ratio()\<close> of the Python standard library, as the
  program calls it: no junk predicate, \<open>autojunk\<close> on. With \<open>autojunk\<close>, a character of
  \<open>b\<close> that occurs more than \<open>len(b) // 100 + 1\<close> times is "popular" when \<open>b\<close> has 200
  characters or more, and is left out of the index \<open>b2j\<close>.
\<close>

definition popular :: "ustr \<Rightarrow> cp \<Rightarrow> bool" where
  "popular b c \<longleftrightarrow> 200 \<le> length b \<and> length b div 100 + 1 < count_list b c"

definition b2j :: "ustr \<Rightarrow> cp \<Rightarrow> nat list" where
  "b2j b c = (if popular b c then [] else filter (\<lambda>j. b ! j = c) [0..<length b])"

text \<open>
  The inner loop of \<open>find_longest_match\<close> over the positions \<open>j\<close> of \<open>a[i]\<close> in \<open>b\<close>:
  positions below \<open>blo\<close> are skipped, the first position at or above \<open>bhi\<close> ends the loop;
  \<open>j2len.get(j - 1, 0)\<close> finds nothing for \<open>j = 0\<close>.
\<close>

fun match_row ::
  "(nat \<rightharpoonup> nat) \<Rightarrow> nat \<Rightarrow> nat \<Rightarrow> nat \<Rightarrow> nat list \<Rightarrow>
   (nat \<rightharpoonup> nat) \<times> nat \<times> nat \<times> nat \<Rightarrow> (nat \<rightharpoonup> nat) \<times> nat \<times> nat \<times> nat" where
  "match_row j2len i blo bhi [] st = st"
| "match_row j2len i blo bhi (j # js) (newj2len, besti, bestj, bestsize) =
     (if j < blo then match_row j2len i blo bhi js (newj2len, besti, bestj, bestsize)
      else if bhi \<le> j then (newj2len, besti, bestj, bestsize)
      else (let k = (case (if j = 0 then None else j2len (j - 1)) of
                       None \<Rightarrow> 0 | Some n \<Rightarrow> n) + 1
            in if bestsize < k
               then match_row j2len i blo bhi js (newj2len(j \<mapsto> k), i + 1 - k, j + 1 - k, k)
               else match_row j2len i blo bhi js (newj2len(j \<mapsto> k), besti, bestj, bestsize)))"

text \<open>The outer loop over \<open>i\<close> in \<open>range(alo, ahi)\<close>.\<close>

fun match_rows ::
  "ustr \<Rightarrow> ustr \<Rightarrow> nat \<Rightarrow> nat \<Rightarrow> nat list \<Rightarrow>
   (nat \<rightharpoonup> nat) \<times> nat \<times> nat \<times> nat \<Rightarrow> nat \<times> nat \<times> nat" where
  "match_rows a b blo bhi [] (j2len, best) = best"
| "match_rows a b blo bhi (i # is) (j2len, best) =
     match_rows a b blo bhi is (match_row j2len i blo bhi (b2j b (a ! i)) (Map.empty, best))"

text \<open>The two loops that extend the best block over matching characters on each side.
  The two loops after them extend over junk characters only, and there are none.\<close>

function extend_left ::
  "ustr \<Rightarrow> ustr \<Rightarrow> nat \<Rightarrow> nat \<Rightarrow> nat \<times> nat \<times> nat \<Rightarrow> nat \<times> nat \<times> nat" where
  "extend_left a b alo blo (besti, bestj, bestsize) =
     (if alo < besti \<and> blo < bestj \<and> a ! (besti - 1) = b ! (bestj - 1)
      then extend_left a b alo blo (besti - 1, bestj - 1, bestsize + 1)
      else (besti, bestj, bestsize))"
  by pat_completeness auto
termination
  by (relation "measure (\<lambda>(a, b, alo, blo, besti, bestj, bestsize). besti)") auto

function extend_right ::
  "ustr \<Rightarrow> ustr \<Rightarrow> nat \<Rightarrow> nat \<Rightarrow> nat \<times> nat \<times> nat \<Rightarrow> nat \<times> nat \<times> nat" where
  "extend_right a b ahi bhi (besti, bestj, bestsize) =
     (if besti + bestsize < ahi \<and> bestj + bestsize < bhi
         \<and> a ! (besti + bestsize) = b ! (bestj + bestsize)
      then extend_right a b ahi bhi (besti, bestj, bestsize + 1)
      else (besti, bestj, bestsize))"
  by pat_completeness auto
termination
  by (relation "measure (\<lambda>(a, b, ahi, bhi, besti, bestj, bestsize). ahi - (besti + bestsize))")
     auto

definition find_longest_match ::
  "ustr \<Rightarrow> ustr \<Rightarrow> nat \<Rightarrow> nat \<Rightarrow> nat \<Rightarrow> nat \<Rightarrow> nat \<times> nat \<times> nat" where
  "find_longest_match a b alo ahi blo bhi =
     extend_right a b ahi bhi
       (extend_left a b alo blo
          (match_rows a b blo bhi [alo..<ahi] (Map.empty, alo, blo, 0)))"

text \<open>The block that \<open>find_longest_match\<close> returns lies inside the window of \<open>a\<close> it was
  asked for; the recursion over the windows below terminates by this.\<close>

lemma match_row_bounds:
  assumes "\<forall>j n. j2len j = Some n \<longrightarrow> n + alo \<le> i" and "alo \<le> i"
    and "\<forall>j n. new j = Some n \<longrightarrow> n + alo \<le> i + 1"
    and "alo \<le> besti \<and> besti + bestsize \<le> i + 1"
    and "match_row j2len i blo bhi js (new, besti, bestj, bestsize) = (new', besti', bestj', bestsize')"
  shows "(\<forall>j n. new' j = Some n \<longrightarrow> n + alo \<le> i + 1) \<and> alo \<le> besti' \<and> besti' + bestsize' \<le> i + 1"
  using assms(3-5)
proof (induction js arbitrary: new besti bestj bestsize)
  case Nil
  then show ?case by simp
next
  case (Cons j js)
  show ?case
  proof (cases "j < blo")
    case True
    then show ?thesis using Cons.IH [OF Cons.prems(1) Cons.prems(2)] Cons.prems(3) by simp
  next
    case nlow: False
    show ?thesis
    proof (cases "bhi \<le> j")
      case True
      then show ?thesis using nlow Cons.prems by simp
    next
      case False
      define k where "k = (case (if j = 0 then None else j2len (j - 1)) of None \<Rightarrow> 0 | Some n \<Rightarrow> n) + 1"
      have k: "k + alo \<le> i + 1" "0 < k"
        using assms(1,2) unfolding k_def by (auto split: option.splits)
      have new: "\<forall>j' n. (new(j \<mapsto> k)) j' = Some n \<longrightarrow> n + alo \<le> i + 1"
        using Cons.prems(1) k by auto
      show ?thesis
      proof (cases "bestsize < k")
        case True
        have b: "alo \<le> i + 1 - k \<and> i + 1 - k + k \<le> i + 1" using k by arith
        have "match_row j2len i blo bhi js (new(j \<mapsto> k), i + 1 - k, j + 1 - k, k) = (new', besti', bestj', bestsize')"
          using Cons.prems(3) nlow False True by (simp add: k_def Let_def)
        then show ?thesis using Cons.IH [OF new b] by blast
      next
        case nb: False
        have "match_row j2len i blo bhi js (new(j \<mapsto> k), besti, bestj, bestsize) = (new', besti', bestj', bestsize')"
          using Cons.prems(3) nlow False nb by (simp add: k_def Let_def)
        then show ?thesis using Cons.IH [OF new Cons.prems(2)] by blast
      qed
    qed
  qed
qed

lemma match_rows_bounds:
  assumes "\<forall>j n. j2len j = Some n \<longrightarrow> n + alo \<le> u"
    and "alo \<le> besti \<and> besti + bestsize \<le> u" and "u \<le> ahi"
    and "match_rows a b blo bhi [u..<ahi] (j2len, besti, bestj, bestsize) = (besti', bestj', bestsize')"
  shows "alo \<le> besti' \<and> besti' + bestsize' \<le> ahi"
  using assms
proof (induction "ahi - u" arbitrary: u j2len besti bestj bestsize)
  case 0
  then show ?case by simp
next
  case (Suc d)
  then have lt: "u < ahi" by arith
  obtain new bi bj bs where row:
    "match_row j2len u blo bhi (b2j b (a ! u)) (Map.empty, besti, bestj, bestsize) = (new, bi, bj, bs)"
    by (metis prod_cases4)
  have inv: "(\<forall>j n. new j = Some n \<longrightarrow> n + alo \<le> u + 1) \<and> alo \<le> bi \<and> bi + bs \<le> u + 1"
    by (rule match_row_bounds [OF Suc.prems(1) _ _ _ row]) (use Suc.prems(2) in auto)
  have "match_rows a b blo bhi [Suc u..<ahi] (new, bi, bj, bs) = (besti', bestj', bestsize')"
    using Suc.prems(4) lt row by (simp add: upt_conv_Cons)
  moreover have "d = ahi - Suc u" using Suc.hyps(2) by arith
  ultimately show ?case using Suc.hyps(1) [of "Suc u" new bi bs bj] inv lt by auto
qed

lemma extend_left_bounds:
  "extend_left a b alo blo (besti, bestj, bestsize) = (i, j, k) \<Longrightarrow>
   alo \<le> besti \<Longrightarrow> alo \<le> i \<and> i + k = besti + bestsize \<and> bestsize \<le> k"
proof (induction a b alo blo "(besti, bestj, bestsize)" arbitrary: besti bestj bestsize rule: extend_left.induct)
  case (1 a b alo blo besti bestj bestsize)
  show ?case
  proof (cases "alo < besti \<and> blo < bestj \<and> a ! (besti - 1) = b ! (bestj - 1)")
    case True
    then have "extend_left a b alo blo (besti - 1, bestj - 1, bestsize + 1) = (i, j, k)"
      using 1(2) by simp
    moreover have "alo \<le> besti - 1" using True by arith
    ultimately have "alo \<le> i \<and> i + k = besti - 1 + (bestsize + 1) \<and> bestsize + 1 \<le> k"
      using 1(1) [OF True] by blast
    then show ?thesis using True by arith
  next
    case False
    then show ?thesis using 1(2,3) by auto
  qed
qed

lemma extend_right_bounds:
  "extend_right a b ahi bhi (besti, bestj, bestsize) = (i, j, k) \<Longrightarrow>
   i = besti \<and> bestsize \<le> k \<and> (k = bestsize \<or> besti + k \<le> ahi)"
proof (induction a b ahi bhi "(besti, bestj, bestsize)" arbitrary: besti bestj bestsize rule: extend_right.induct)
  case (1 a b ahi bhi besti bestj bestsize)
  show ?case
  proof (cases "besti + bestsize < ahi \<and> bestj + bestsize < bhi \<and> a ! (besti + bestsize) = b ! (bestj + bestsize)")
    case True
    then have "extend_right a b ahi bhi (besti, bestj, bestsize + 1) = (i, j, k)"
      using 1(2) by simp
    from 1(1) [OF True this] True show ?thesis by auto
  next
    case False
    then show ?thesis using 1(2) by auto
  qed
qed

lemma find_longest_match_bounds:
  assumes "find_longest_match a b alo ahi blo bhi = (i, j, k)" and "k \<noteq> 0"
  shows "alo \<le> i \<and> i + k \<le> ahi"
proof -
  obtain bi bj bs where rows: "match_rows a b blo bhi [alo..<ahi] (Map.empty, alo, blo, 0) = (bi, bj, bs)"
    by (metis prod_cases3)
  obtain li lj ls where left: "extend_left a b alo blo (bi, bj, bs) = (li, lj, ls)"
    by (metis prod_cases3)
  have right: "extend_right a b ahi bhi (li, lj, ls) = (i, j, k)"
    using assms(1) rows left by (simp add: find_longest_match_def)
  show ?thesis
  proof (cases "alo \<le> ahi")
    case True
    have "alo \<le> bi \<and> bi + bs \<le> ahi"
      by (rule match_rows_bounds [OF _ _ True rows]) auto
    with extend_left_bounds [OF left] extend_right_bounds [OF right] show ?thesis by auto
  next
    case False
    then have "(bi, bj, bs) = (alo, blo, 0)" using rows by simp
    then have "(li, lj, ls) = (alo, blo, 0)" using left by simp
    then have "k = 0" using right False by simp
    then show ?thesis using assms(2) by simp
  qed
qed

text \<open>
  \<open>get_matching_blocks\<close> keeps a work list of windows \<open>(alo, ahi, blo, bhi)\<close>: it takes the
  longest match of a window and, when it is not empty, adds the window to its left and the window
  to its right, each only when it is not empty on both sides. \<open>ratio\<close> uses the sum of the
  block sizes only, which does not depend on the order the windows are taken in, so the work
  list is the recursion here. The recursion ends because each window is shorter than its
  parent, by the bounds above.
\<close>

function matching_size :: "ustr \<Rightarrow> ustr \<Rightarrow> nat \<Rightarrow> nat \<Rightarrow> nat \<Rightarrow> nat \<Rightarrow> nat" where
  "matching_size a b alo ahi blo bhi =
     (case find_longest_match a b alo ahi blo bhi of
        (i, j, k) \<Rightarrow>
          if k = 0 then 0
          else k + (if alo < i \<and> blo < j then matching_size a b alo i blo j else 0)
                 + (if i + k < ahi \<and> j + k < bhi then matching_size a b (i + k) ahi (j + k) bhi
                    else 0))"
  by pat_completeness auto
termination
  by (relation "measure (\<lambda>(a, b, alo, ahi, blo, bhi). ahi - alo)")
     (auto dest: find_longest_match_bounds find_longest_match_bounds [OF sym])

declare matching_size.simps [simp del]

text \<open>
  \<open>ratio\<close> is \<open>2.0 * matches / length\<close>, or \<open>1.0\<close> when both strings are empty. The
  source computes it as an IEEE double and compares it with the doubles nearest to \<open>0.5\<close>,
  \<open>0.9\<close> and \<open>0.3\<close>; the model is the exact rational. Two distinct fractions with
  denominators below \<open>2^26\<close> differ by more than the rounding error of a double in the unit
  interval, so for strings of fewer than \<open>2^25\<close> characters the doubles compare as the
  rationals do.
\<close>

definition ratio :: "ustr \<Rightarrow> ustr \<Rightarrow> rat" where
  "ratio a b =
     (let matches = matching_size a b 0 (length a) 0 (length b);
          len = length a + length b
      in if len \<noteq> 0 then 2 * of_nat matches / of_nat len else 1)"

definition compare :: "ucd \<Rightarrow> ustr \<Rightarrow> ustr \<Rightarrow> rat" where
  "compare U a b = ratio (lower U a) (lower U b)"

definition norm :: "ucd \<Rightarrow> ustr \<Rightarrow> ustr" where
  "norm U x = replace_hyphen (lower U x)"

section \<open>Fuzzy Section Resolver\<close>

text \<open>
  \<open>max(items, key=lambda x: x[1])\<close>: the first item whose key no later item exceeds; it
  raises \<open>ValueError\<close> on an empty list.
\<close>

fun max_conf :: "(ustr \<times> rat) list \<Rightarrow> error + ustr \<times> rat" where
  "max_conf [] = Inl ValueError"
| "max_conf (x # xs) = Inr (foldl (\<lambda>best y. if snd best < snd y then y else best) x xs)"

text \<open>The result \<open>None\<close> of the source is \<open>Inr None\<close>; a matched body is \<open>Inr (Some body)\<close>,
  the empty body included.\<close>

definition find_secton :: "ucd \<Rightarrow> ustr \<Rightarrow> sections \<Rightarrow> rat \<Rightarrow> error + ustr option" where
  "find_secton U name sections min_conf =
     (case max_conf (map (\<lambda>(title, body). (title, compare U title name)) sections) of
        Inl e \<Rightarrow> Inl e
      | Inr (title, conf) \<Rightarrow>
          if conf < min_conf then Inr None
          else (case getitem sections title of
                  Inl e \<Rightarrow> Inl e
                | Inr body \<Rightarrow> Inr (Some body)))"

text \<open>The calls of \<open>find_secton\<close> that \<open>generate_summary\<close> and \<open>find_examples\<close> make: the
  field name and the threshold of each (0.5 is the default).\<close>

definition assembler_calls :: "(ustr \<times> rat) list" where
  "assembler_calls =
     [(str ''author'', 1 / 2), (str ''description'', 1 / 2), (str ''examples'', 1 / 2),
      (str ''usage'', 1 / 2), (str ''require'', 9 / 10), (str ''exclude'', 9 / 10)]"

section \<open>Example Extractor\<close>

definition example_quote :: "cp \<Rightarrow> bool" where
  "example_quote c \<longleftrightarrow> c \<in> set [SP, NL, DQUOTE, SQUOTE, BQUOTE]"

text \<open>\<open>re.split(r'["`]', example)[0]\<close>: the text before the first double quote or
  backtick.\<close>

definition before_quote :: "ustr \<Rightarrow> ustr" where
  "before_quote example = takeWhile (\<lambda>c. c \<noteq> DQUOTE \<and> c \<noteq> BQUOTE) example"

text \<open>The loop over the wake words: each prefix is tested against the candidate as the
  earlier prefixes left it.\<close>

fun remove_prefixes :: "ucd \<Rightarrow> ustr list \<Rightarrow> ustr \<Rightarrow> ustr" where
  "remove_prefixes U [] example = example"
| "remove_prefixes U (prefix # prefixes) example =
     remove_prefixes U prefixes
       (if startswith (lower U example) prefix then drop (length prefix) example else example)"

definition wake_words :: "ustr list" where
  "wake_words = [str ''hey mycroft'', str ''mycroft'', str ''hey-mycroft'']"

definition question_words :: "ustr list" where
  "question_words = [str ''who'', str ''what'', str ''when'', str ''where'']"

text \<open>
  The suffix list of the source is \<^verbatim>\<open>["'s", "s", "", "'d", "d" "'re", "re"]\<close>: there is no
  comma between \<^verbatim>\<open>"d"\<close> and \<^verbatim>\<open>"'re"\<close>, and Python joins adjacent string literals, so
  the list has six elements and its fifth is \<^verbatim>\<open>d're\<close>.
\<close>

definition question_suffixes :: "ustr list" where
  "question_suffixes =
     [SQUOTE # str ''s'', str ''s'', [], SQUOTE # str ''d'', str ''d'' @ SQUOTE # str ''re'', str ''re'']"

definition is_question :: "ucd \<Rightarrow> ustr \<Rightarrow> bool" where
  "is_question U example \<longleftrightarrow>
     list_ex (\<lambda>word. list_ex (\<lambda>suffix. startswith (lower U example) (word @ suffix @ [SP]))
                         question_suffixes)
             question_words"

definition question_end :: "cp \<Rightarrow> bool" where
  "question_end c \<longleftrightarrow> c = QMARK \<or> c = DOT"

definition comma_space :: "cp \<Rightarrow> bool" where
  "comma_space c \<longleftrightarrow> c = SP \<or> c = COMMA"

definition parse_example :: "ucd \<Rightarrow> ustr \<Rightarrow> ustr" where
  "parse_example U example0 =
     (let example = parse_whitespace (strip example_quote example0);
          example = before_quote example;
          example = remove_prefixes U wake_words example;
          example = strip comma_space example;
          example = (if is_question U example then rstrip question_end example @ [QMARK]
                     else example)
      in format_sent U example)"

text \<open>
  \<open>re.findall(r'(?<=[-*]).*', body, flags=re.MULTILINE)\<close>. A match starts at the first
  position whose previous character is \<open>-\<close> or \<open>*\<close> and runs to the end of the line. The
  search resumes where the match ended; an empty match is reported too (also right after a
  match that ends in a bullet character), and after an empty match the search moves one
  character on. The function carries the character before the current position.
\<close>

definition bullet :: "cp option \<Rightarrow> bool" where
  "bullet prev \<longleftrightarrow> prev = Some HYPHEN \<or> prev = Some STAR"

function findall_bullets :: "cp option \<Rightarrow> ustr \<Rightarrow> ustr list" where
  "findall_bullets prev [] = (if bullet prev then [[]] else [])"
| "findall_bullets prev (c # cs) =
     (if bullet prev
      then (let m = takeWhile (\<lambda>d. d \<noteq> NL) (c # cs)
            in if m = [] then [] # findall_bullets (Some c) cs
               else m # findall_bullets (Some (last m)) (dropWhile (\<lambda>d. d \<noteq> NL) (c # cs)))
      else findall_bullets (Some c) cs)"
  by pat_completeness auto
termination
proof (relation "measure (\<lambda>(prev, s). length s)", goal_cases)
  case 1
  show ?case by simp
next
  case (2 prev c cs m)
  show ?case by simp
next
  case (3 prev c cs m)
  then have "c \<noteq> NL" by auto
  then show ?case by (simp add: le_imp_less_Suc length_dropWhile_le)
next
  case (4 prev c cs)
  show ?case by simp
qed

text \<open>\<open>find_secton('examples', sections) or find_secton('usage', sections) or \<^verbatim>\<open>''\<close>\<close>:
  \<open>None\<close> and the empty body are both false for \<open>or\<close>, and the second call is made only
  when the first result is false.\<close>

definition examples_source :: "ucd \<Rightarrow> sections \<Rightarrow> error + ustr" where
  "examples_source U sections =
     (case find_secton U (str ''examples'') sections (1 / 2) of
        Inl e \<Rightarrow> Inl e
      | Inr r \<Rightarrow>
          if r \<noteq> None \<and> r \<noteq> Some [] then Inr (the r)
          else (case find_secton U (str ''usage'') sections (1 / 2) of
                  Inl e \<Rightarrow> Inl e
                | Inr r' \<Rightarrow> if r' \<noteq> None \<and> r' \<noteq> Some [] then Inr (the r') else Inr []))"

definition find_examples :: "ucd \<Rightarrow> sections \<Rightarrow> error + ustr list" where
  "find_examples U sections =
     (case examples_source U sections of
        Inl e \<Rightarrow> Inl e
      | Inr body \<Rightarrow> Inr (findall_bullets None body))"

text \<open>The pipeline of \<open>generate_summary\<close> for the field \<open>examples\<close>:
  \<open>[parse_example(i) for i in find_examples(extract_sections(readme))]\<close>.\<close>

definition examples_of :: "ucd \<Rightarrow> ustr \<Rightarrow> error + ustr list" where
  "examples_of U readme =
     (case extract_sections U readme of
        Inl e \<Rightarrow> Inl e
      | Inr sections \<Rightarrow>
          (case find_examples U sections of
             Inl e \<Rightarrow> Inl e
           | Inr candidates \<Rightarrow> Inr (map (parse_example U) candidates)))"

section \<open>Title Resolver\<close>

text \<open>\<open>next(iter(sections))\<close> is the first key and raises \<open>StopIteration\<close> on an empty
  dictionary; both \<open>sections[...]\<close> reads raise \<open>KeyError\<close> on an absent key.\<close>

definition find_title_info :: "ucd \<Rightarrow> sections \<Rightarrow> ustr \<Rightarrow> error + ustr \<times> ustr" where
  "find_title_info U sections skill_name =
     (case sections of
        [] \<Rightarrow> Inl StopIteration
      | (title_section, _) # _ \<Rightarrow>
          if 3 / 10 \<le> compare U (norm U title_section) (norm U skill_name)
          then (case getitem sections title_section of
                  Inl e \<Rightarrow> Inl e
                | Inr body \<Rightarrow> Inr (caps U title_section, body))
          else (case getitem sections [] of
                  Inl e \<Rightarrow> Inl e
                | Inr body \<Rightarrow> Inr (py_title U (norm U skill_name), body)))"

section \<open>Invariants of the Section Splitter\<close>

text \<open>The cursor is always a key, and the empty key is never removed.\<close>

definition cursor_ok :: "ustr \<times> sections \<Rightarrow> bool" where
  "cursor_ok st \<longleftrightarrow> fst st \<in> fst ` set (snd st) \<and> [] \<in> fst ` set (snd st)"

text \<open>Two runs of the loop that are at the same cursor and bind the label \<open>L\<close> to the
  same body.\<close>

definition same_binding :: "ustr \<Rightarrow> ustr \<times> sections \<Rightarrow> ustr \<times> sections \<Rightarrow> bool" where
  "same_binding L s1 s2 \<longleftrightarrow>
     fst s1 = fst s2 \<and> cursor_ok s1 \<and> cursor_ok s2 \<and> map_of (snd s1) L = map_of (snd s2) L"

text \<open>Two runs of the loop that are at the same cursor and whose maps differ at most in the
  body bound to \<open>L\<close>.\<close>

definition differ_at :: "ustr \<Rightarrow> ustr \<times> sections \<Rightarrow> ustr \<times> sections \<Rightarrow> bool" where
  "differ_at L s1 s2 \<longleftrightarrow>
     fst s1 = fst s2 \<and> cursor_ok s1 \<and> L \<in> fst ` set (snd s1) \<and>
     (\<exists>v. snd s2 = AList.update L v (snd s1))"

section \<open>Properties of the normalizers\<close>

subsection \<open>Whitespace Normalizer\<close>

lemma sub_lone_nl_id: "NL \<notin> set u \<Longrightarrow> sub_lone_nl p u = u"
  by (induction u arbitrary: p) auto

lemma sub_run_id: "x \<notin> set u \<Longrightarrow> sub_run x u = u"
  by (induction u) auto

lemma insert_set_dropWhile: "insert x (set (dropWhile (\<lambda>d. d = x) cs)) = insert x (set cs)"
  by (induction cs) auto

lemma set_sub_run: "set (sub_run x u) = set u"
proof (induction x u rule: sub_run.induct)
  case (1 x)
  then show ?case by simp
next
  case (2 x c cs)
  then show ?case using insert_set_dropWhile [of x cs] by auto
qed

lemma dropWhile_sub_run:
  "t = [] \<or> hd t \<noteq> x \<Longrightarrow> dropWhile (\<lambda>d. d = x) (sub_run x t) = sub_run x t"
  by (cases t) auto

lemma dropWhile_head: "dropWhile (\<lambda>d. d = x) cs = [] \<or> hd (dropWhile (\<lambda>d. d = x) cs) \<noteq> x"
  using hd_dropWhile [of "\<lambda>d. d = x" cs] by blast

lemma sub_run_idem: "sub_run x (sub_run x u) = sub_run x u"
proof (induction x u rule: sub_run.induct)
  case (1 x)
  then show ?case by simp
next
  case (2 x c cs)
  show ?case
  proof (cases "c = x")
    case True
    then show ?thesis
      using 2 dropWhile_sub_run [OF dropWhile_head [of x cs]] by simp
  next
    case False
    then show ?thesis using 2 by simp
  qed
qed

lemma sub_lone_nl_no_nl:
  "\<not> has_nl_pair s \<Longrightarrow> \<not> (p = Some NL \<and> s \<noteq> [] \<and> hd s = NL) \<Longrightarrow> NL \<notin> set (sub_lone_nl p s)"
proof (induction s arbitrary: p)
  case Nil
  then show ?case by simp
next
  case (Cons c cs)
  have a: "\<not> has_nl_pair cs" using Cons.prems(1) by (cases cs) auto
  have b: "\<not> (Some c = Some NL \<and> cs \<noteq> [] \<and> hd cs = NL)"
    using Cons.prems(1) by (cases cs) auto
  have "NL \<notin> set (sub_lone_nl (Some c) cs)" using Cons.IH [OF a b] .
  moreover have "c = NL \<Longrightarrow> p \<noteq> Some NL \<and> (case cs of [] \<Rightarrow> True | d # _ \<Rightarrow> d \<noteq> NL)"
    using Cons.prems by (cases cs) auto
  ultimately show ?case by auto
qed

lemma has_nl_pair_Cons: "has_nl_pair (c # cs) \<longleftrightarrow> (c = NL \<and> cs \<noteq> [] \<and> hd cs = NL) \<or> has_nl_pair cs"
  by (cases cs) auto

lemma sub_lone_nl_keeps_pair:
  "has_nl_pair s \<Longrightarrow> NL \<in> set (sub_lone_nl p s)"
proof (induction s arbitrary: p)
  case Nil
  then show ?case by simp
next
  case (Cons c cs)
  from Cons.prems have "(c = NL \<and> cs \<noteq> [] \<and> hd cs = NL) \<or> has_nl_pair cs"
    by (simp only: has_nl_pair_Cons)
  then show ?case
  proof
    assume a: "c = NL \<and> cs \<noteq> [] \<and> hd cs = NL"
    then obtain d ds where "cs = d # ds" "d = NL" by (cases cs) auto
    then show ?thesis using a by simp
  next
    assume "has_nl_pair cs"
    then have "NL \<in> set (sub_lone_nl (Some c) cs)" by (rule Cons.IH)
    then show ?thesis by simp
  qed
qed

lemma hd_sub_run: "t \<noteq> [] \<Longrightarrow> sub_run x t \<noteq> [] \<and> hd (sub_run x t) = hd t"
  by (cases t) auto

lemma sub_run_head:
  "t = [] \<or> hd t \<noteq> x \<Longrightarrow> sub_run x t = [] \<or> hd (sub_run x t) \<noteq> x"
  by (cases t) auto

lemma sub_run_no_pair: "\<not> has_nl_pair (sub_run NL u)"
proof (induction u rule: length_induct)
  case (1 u)
  show ?case
  proof (cases u)
    case Nil
    then show ?thesis by simp
  next
    case (Cons c cs)
    show ?thesis
    proof (cases "c = NL")
      case True
      let ?d = "dropWhile (\<lambda>d. d = NL) cs"
      let ?r = "sub_run NL ?d"
      have "length ?d < length u" using Cons by (simp add: le_imp_less_Suc length_dropWhile_le)
      then have ih: "\<not> has_nl_pair ?r" using 1 by blast
      have hd: "?r = [] \<or> hd ?r \<noteq> NL"
        by (rule sub_run_head) (rule dropWhile_head)
      have "sub_run NL u = NL # ?r" using Cons True by simp
      then show ?thesis using ih hd by (simp only: has_nl_pair_Cons) blast
    next
      case False
      have ih: "\<not> has_nl_pair (sub_run NL cs)" using 1 Cons by simp
      have "sub_run NL u = c # sub_run NL cs" using Cons False by simp
      then show ?thesis using ih False by (simp only: has_nl_pair_Cons) blast
    qed
  qed
qed

lemma dropWhile_no_pair: "\<not> has_nl_pair cs \<Longrightarrow> \<not> has_nl_pair (dropWhile P cs)"
proof (induction cs)
  case Nil
  then show ?case by simp
next
  case (Cons c cs)
  then have "\<not> has_nl_pair cs" by (simp only: has_nl_pair_Cons) blast
  then show ?case using Cons by simp
qed

lemma sub_run_sp_no_pair: "\<not> has_nl_pair u \<Longrightarrow> \<not> has_nl_pair (sub_run SP u)"
proof (induction u rule: length_induct)
  case (1 u)
  show ?case
  proof (cases u)
    case Nil
    then show ?thesis by simp
  next
    case (Cons c cs)
    have np: "\<not> has_nl_pair cs" using 1(2) unfolding Cons by (simp only: has_nl_pair_Cons) blast
    show ?thesis
    proof (cases "c = SP")
      case True
      let ?d = "dropWhile (\<lambda>d. d = SP) cs"
      have "length ?d < length u" using Cons by (simp add: le_imp_less_Suc length_dropWhile_le)
      moreover have "\<not> has_nl_pair ?d" using np by (rule dropWhile_no_pair)
      ultimately have ih: "\<not> has_nl_pair (sub_run SP ?d)" using 1(1) by blast
      have "sub_run SP u = SP # sub_run SP ?d" using Cons True by simp
      then show ?thesis using ih by (simp add: has_nl_pair_Cons)
    next
      case False
      have ih: "\<not> has_nl_pair (sub_run SP cs)" using 1(1) Cons np by simp
      have eq: "sub_run SP u = c # sub_run SP cs" using Cons False by simp
      have nohd: "\<not> (c = NL \<and> cs \<noteq> [] \<and> hd cs = NL)"
        using 1(2) unfolding Cons by (simp only: has_nl_pair_Cons) blast
      have "cs \<noteq> [] \<Longrightarrow> sub_run SP cs \<noteq> [] \<and> hd (sub_run SP cs) = hd cs"
        by (rule hd_sub_run)
      moreover have "cs = [] \<Longrightarrow> sub_run SP cs = []" by simp
      ultimately have "\<not> (c = NL \<and> sub_run SP cs \<noteq> [] \<and> hd (sub_run SP cs) = NL)"
        using nohd by (cases "cs = []") auto
      then show ?thesis using ih unfolding eq by (simp only: has_nl_pair_Cons) blast
    qed
  qed
qed

text \<open>
  Claim C1 says that \<open>parse_whitespace\<close> is idempotent on every string. It is not: a
  paragraph break (two line feeds) survives the first pass as one line feed, and the second
  pass then sees a lone line feed and turns it into a space.
\<close>

theorem parse_whitespace_not_idempotent:
  "parse_whitespace (parse_whitespace (str ''a'' @ [NL, NL] @ str ''b'')) \<noteq>
   parse_whitespace (str ''a'' @ [NL, NL] @ str ''b'')"
  by code_simp

text \<open>
  Claim C1, amended: \<open>parse_whitespace (parse_whitespace s) = parse_whitespace s\<close> holds
  exactly for the strings \<open>s\<close> that contain no two consecutive line feeds.
\<close>

theorem parse_whitespace_idempotent_iff:
  "parse_whitespace (parse_whitespace s) = parse_whitespace s \<longleftrightarrow> \<not> has_nl_pair s"
proof
  assume eq: "parse_whitespace (parse_whitespace s) = parse_whitespace s"
  show "\<not> has_nl_pair s"
  proof
    assume p: "has_nl_pair s"
    have "NL \<in> set (parse_whitespace s)"
      using sub_lone_nl_keeps_pair [OF p, of None] by (simp add: parse_whitespace_def set_sub_run)
    moreover have "\<not> has_nl_pair (parse_whitespace s)"
      unfolding parse_whitespace_def by (rule sub_run_sp_no_pair) (rule sub_run_no_pair)
    then have "NL \<notin> set (sub_lone_nl None (parse_whitespace s))"
      by (rule sub_lone_nl_no_nl) simp
    then have "NL \<notin> set (parse_whitespace (parse_whitespace s))"
      by (simp add: parse_whitespace_def [of "parse_whitespace s"] set_sub_run)
    ultimately show False using eq by simp
  qed
next
  assume np: "\<not> has_nl_pair s"
  let ?t = "sub_lone_nl None s"
  have t: "NL \<notin> set ?t" using np by (rule sub_lone_nl_no_nl) simp
  then have pw: "parse_whitespace s = sub_run SP ?t"
    by (simp add: parse_whitespace_def sub_run_id)
  have "NL \<notin> set (sub_run SP ?t)" using t by (simp add: set_sub_run)
  then have "parse_whitespace (sub_run SP ?t) = sub_run SP (sub_run SP ?t)"
    by (simp add: parse_whitespace_def sub_run_id sub_lone_nl_id)
  then show "parse_whitespace (parse_whitespace s) = parse_whitespace s"
    by (simp add: pw sub_run_idem)
qed

theorem parse_whitespace_idempotent_iff_witness:
  "\<not> has_nl_pair (str ''a  b'' @ [NL] @ str ''c'') \<and>
   parse_whitespace (parse_whitespace (str ''a  b'' @ [NL] @ str ''c'')) =
   parse_whitespace (str ''a  b'' @ [NL] @ str ''c'')"
proof -
  have "\<not> has_nl_pair (str ''a  b'' @ [NL] @ str ''c'')" by code_simp
  then show ?thesis
    using parse_whitespace_idempotent_iff [of "str ''a  b'' @ [NL] @ str ''c''"] by blast
qed

subsection \<open>Sentence Formatter\<close>










section \<open>Properties of the Section Splitter\<close>

lemma getitem_Some: "map_of m k = Some v \<Longrightarrow> getitem m k = Inr v"
  by (simp add: getitem_def)

lemma key_has_value: "k \<in> fst ` set m \<Longrightarrow> \<exists>v. map_of m k = Some v"
  by (metis domD dom_map_of_conv_image_fst)

lemma step_heading:
  "is_heading U raw \<Longrightarrow>
   extract_step U (ls, m) raw = Inr (label_of U raw, AList.update (label_of U raw) [] m)"
  by (simp add: is_heading_def label_of_def Let_def)

lemma step_body:
  "\<not> is_heading U raw \<Longrightarrow> map_of m ls = Some body \<Longrightarrow>
   extract_step U (ls, m) raw = Inr (ls, AList.update ls (body @ NL # strip (isspace U) raw) m)"
  by (simp add: is_heading_def Let_def getitem_Some)

declare extract_step.simps [simp del]

lemma loop_append:
  "extract_loop U st (xs @ ys) =
     (case extract_loop U st xs of Inl e \<Rightarrow> Inl e | Inr st' \<Rightarrow> extract_loop U st' ys)"
  by (induction xs arbitrary: st) (auto split: sum.splits)

lemma step_ok:
  assumes "cursor_ok (ls, m)"
  shows "\<exists>ls' m'. extract_step U (ls, m) raw = Inr (ls', m') \<and> cursor_ok (ls', m')"
proof (cases "is_heading U raw")
  case True
  show ?thesis using assms unfolding step_heading [OF True] cursor_ok_def
    by (simp add: AList.dom_update)
next
  case False
  obtain body where b: "map_of m ls = Some body"
    using assms key_has_value unfolding cursor_ok_def by fastforce
  show ?thesis using assms unfolding step_body [OF False b] cursor_ok_def
    by (simp add: AList.dom_update)
qed

lemma loop_ok:
  "cursor_ok st \<Longrightarrow> \<exists>st'. extract_loop U st raws = Inr st' \<and> cursor_ok st'"
proof (induction raws arbitrary: st)
  case Nil
  then show ?case by simp
next
  case (Cons raw raws)
  obtain ls m where st: "st = (ls, m)" by (cases st)
  obtain ls' m' where s: "extract_step U (ls, m) raw = Inr (ls', m')" and ok: "cursor_ok (ls', m')"
    using step_ok [of ls m U raw] Cons.prems st by auto
  show ?case using Cons.IH [OF ok] s st by simp
qed

lemma init_ok: "cursor_ok ([], [([], [])])"
  by (simp add: cursor_ok_def)

lemma update_absent: "k \<notin> fst ` set m \<Longrightarrow> AList.update k v m = m @ [(k, v)]"
  by (induction m) auto

lemma map_of_strip_bodies:
  "map_of (strip_bodies U m) k = map_option (strip (isspace U)) (map_of m k)"
  by (induction m) (auto simp: strip_bodies_def)

lemma shift_to_end_ok:
  assumes "map_of m [] = Some body"
  shows "shift_to_end m = Inr (AList.delete [] m @ [([], body)])"
  using assms update_absent [OF AList.delete_notin_dom, of "[]" body m]
  by (simp add: shift_to_end_def getitem_Some)

lemma map_of_shifted:
  "map_of m [] = Some body \<Longrightarrow> map_of (AList.delete [] m @ [([], body)]) k = map_of m k"
  by (cases "k = []") (simp_all add: map_add_def AList.delete_conv' split: option.splits)

text \<open>The result of the whole function in terms of the state the loop ends in.\<close>

lemma extract_lines_result:
  assumes "extract_loop U ([], [([], [])]) raws = Inr (ls, m)"
  shows "\<exists>body. map_of m [] = Some body \<and>
     extract_lines U raws =
       Inr (AList.delete [] (strip_bodies U m) @ [([], strip (isspace U) body)])"
proof -
  have "cursor_ok (ls, m)" using loop_ok [OF init_ok, of U raws] assms by simp
  then obtain body where b: "map_of m [] = Some body"
    using key_has_value unfolding cursor_ok_def by fastforce
  then have "map_of (strip_bodies U m) [] = Some (strip (isspace U) body)"
    by (simp add: map_of_strip_bodies)
  from shift_to_end_ok [OF this] b show ?thesis using assms by (simp add: extract_lines_def)
qed

text \<open>
  Claim C5: for every document, \<open>extract_sections\<close> returns a Section Map (it does not
  raise), the last entry of the map has the empty key, and no entry before it has: there is
  exactly one entry with the empty key and it comes last in iteration order.
\<close>

theorem preamble_last:
  "\<exists>ms body. extract_sections U doc = Inr (ms @ [([], body)]) \<and> [] \<notin> fst ` set ms"
proof -
  obtain st' where "extract_loop U ([], [([], [])]) (split_nl doc) = Inr st'"
    using loop_ok [OF init_ok, of U "split_nl doc"] by blast
  then obtain ls m where l: "extract_loop U ([], [([], [])]) (split_nl doc) = Inr (ls, m)"
    by (cases st') simp
  from extract_lines_result [OF l] obtain body where
    e: "extract_lines U (split_nl doc) =
          Inr (AList.delete [] (strip_bodies U m) @ [([], strip (isspace U) body)])"
    by blast
  have n: "[] \<notin> fst ` set (AList.delete [] (strip_bodies U m))"
    by (rule AList.delete_notin_dom)
  show ?thesis
    apply (rule exI [of _ "AList.delete [] (strip_bodies U m)"])
    apply (rule exI [of _ "strip (isspace U) body"])
    using e n by (simp add: extract_sections_def)
qed

subsection \<open>Runs of the loop compared\<close>

lemma loop_no_heading:
  "\<forall>raw\<in>set raws. \<not> is_heading U raw \<Longrightarrow> map_of m ls = Some acc \<Longrightarrow>
   extract_loop U (ls, m) raws = Inr (ls, AList.update ls (acc @ body_text U raws) m)"
proof (induction raws arbitrary: m acc)
  case Nil
  then show ?case by (simp add: body_text_def AList.update_triv)
next
  case (Cons raw raws)
  let ?acc = "acc @ NL # strip (isspace U) raw"
  let ?m = "AList.update ls ?acc m"
  have nh: "\<not> is_heading U raw" and rest: "\<forall>raw\<in>set raws. \<not> is_heading U raw"
    using Cons.prems(1) by simp_all
  have "map_of ?m ls = Some ?acc" by (simp add: AList.update_conv')
  from Cons.IH [OF rest this]
  have "extract_loop U (ls, ?m) raws = Inr (ls, AList.update ls (?acc @ body_text U raws) m)"
    by simp
  then show ?case using step_body [OF nh Cons.prems(2)] by (simp add: body_text_def)
qed

lemma extract_lines_no_heading:
  assumes "\<forall>raw\<in>set raws. \<not> is_heading U raw"
  shows "extract_lines U raws = Inr [([], strip (isspace U) (body_text U raws))]"
proof -
  have "extract_loop U ([], [([], [])]) raws = Inr ([], [([], body_text U raws)])"
    using loop_no_heading [OF assms, of "[([], [])]" "[]" "[]"] by simp
  then show ?thesis
    by (simp add: extract_lines_def strip_bodies_def shift_to_end_def getitem_def)
qed

lemma extract_lines_lookup:
  assumes "extract_loop U ([], [([], [])]) raws = Inr (ls, m)"
  shows "\<exists>res. extract_lines U raws = Inr res \<and>
           (\<forall>k. map_of res k = map_option (strip (isspace U)) (map_of m k))"
proof -
  from extract_lines_result [OF assms] obtain body where
    b: "map_of m [] = Some body" and
    e: "extract_lines U raws = Inr (AList.delete [] (strip_bodies U m) @ [([], strip (isspace U) body)])"
    by blast
  have s: "map_of (strip_bodies U m) [] = Some (strip (isspace U) body)"
    using b by (simp add: map_of_strip_bodies)
  show ?thesis using e map_of_shifted [OF s] by (simp add: map_of_strip_bodies)
qed

lemma step_same_binding:
  assumes "same_binding L (ls, m1) (ls, m2)"
  shows "\<exists>ls' m1' m2'. extract_step U (ls, m1) raw = Inr (ls', m1') \<and>
           extract_step U (ls, m2) raw = Inr (ls', m2') \<and> same_binding L (ls', m1') (ls', m2')"
proof (cases "is_heading U raw")
  case True
  show ?thesis
    using assms unfolding step_heading [OF True] same_binding_def cursor_ok_def
    by (simp add: AList.dom_update AList.update_conv')
next
  case False
  obtain b1 where b1: "map_of m1 ls = Some b1"
    using assms key_has_value unfolding same_binding_def cursor_ok_def by fastforce
  obtain b2 where b2: "map_of m2 ls = Some b2"
    using assms key_has_value unfolding same_binding_def cursor_ok_def by fastforce
  have "ls = L \<Longrightarrow> b1 = b2" using assms b1 b2 unfolding same_binding_def by simp
  then show ?thesis
    using assms unfolding step_body [OF False b1] step_body [OF False b2] same_binding_def cursor_ok_def
    by (simp add: AList.dom_update AList.update_conv')
qed

lemma loop_same_binding:
  "same_binding L s1 s2 \<Longrightarrow>
   \<exists>s1' s2'. extract_loop U s1 raws = Inr s1' \<and> extract_loop U s2 raws = Inr s2' \<and>
             same_binding L s1' s2'"
proof (induction raws arbitrary: s1 s2)
  case Nil
  then show ?case by simp
next
  case (Cons raw raws)
  obtain ls m1 where s1: "s1 = (ls, m1)" by (cases s1)
  obtain ls2 m2 where s2: "s2 = (ls2, m2)" by (cases s2)
  have ls2: "ls2 = ls" using Cons.prems s1 s2 by (simp add: same_binding_def)
  from step_same_binding [of L ls m1 m2 U raw] Cons.prems s1 s2 ls2
  obtain ls' m1' m2' where
    a: "extract_step U (ls, m1) raw = Inr (ls', m1')" and
    b: "extract_step U (ls, m2) raw = Inr (ls', m2')" and
    c: "same_binding L (ls', m1') (ls', m2')" by blast
  show ?case using Cons.IH [OF c] a b s1 s2 ls2 by simp
qed

lemma update_commute:
  "L \<in> fst ` set m \<Longrightarrow> K \<noteq> L \<Longrightarrow>
   AList.update K w (AList.update L v m) = AList.update L v (AList.update K w m)"
  by (induction m) auto

lemma step_differ_at:
  assumes "differ_at L (ls, m1) (ls, m2)"
  shows "\<exists>ls' m1' m2'. extract_step U (ls, m1) raw = Inr (ls', m1') \<and>
           extract_step U (ls, m2) raw = Inr (ls', m2') \<and> differ_at L (ls', m1') (ls', m2')"
proof -
  from assms obtain v where m2: "m2 = AList.update L v m1" and L: "L \<in> fst ` set m1"
    and ok: "cursor_ok (ls, m1)" unfolding differ_at_def by auto
  show ?thesis
  proof (cases "is_heading U raw")
    case True
    let ?K = "label_of U raw"
    have "\<exists>v'. AList.update ?K [] m2 = AList.update L v' (AList.update ?K [] m1)"
    proof (cases "?K = L")
      case True
      then have "AList.update ?K [] m2 = AList.update L [] (AList.update ?K [] m1)"
        by (simp add: m2)
      then show ?thesis by blast
    next
      case False
      then show ?thesis using update_commute [OF L False] m2 by blast
    qed
    then show ?thesis
      using ok L unfolding step_heading [OF True] differ_at_def cursor_ok_def
      by (simp add: AList.dom_update)
  next
    case False
    obtain b1 where b1: "map_of m1 ls = Some b1"
      using ok key_has_value unfolding cursor_ok_def by fastforce
    let ?x = "NL # strip (isspace U) raw"
    show ?thesis
    proof (cases "ls = L")
      case True
      have b2: "map_of m2 ls = Some v" by (simp add: m2 True AList.update_conv')
      have "AList.update ls (v @ ?x) m2 = AList.update L (v @ ?x) (AList.update ls (b1 @ ?x) m1)"
        by (simp add: m2 True)
      then have "\<exists>v'. AList.update ls (v @ ?x) m2 = AList.update L v' (AList.update ls (b1 @ ?x) m1)"
        by blast
      then show ?thesis
        using ok L unfolding step_body [OF False b1] step_body [OF False b2] differ_at_def cursor_ok_def
        by (simp add: AList.dom_update)
    next
      case nL: False
      have b2: "map_of m2 ls = Some b1" using b1 nL by (simp add: m2 AList.update_conv')
      have "AList.update ls (b1 @ ?x) m2 = AList.update L v (AList.update ls (b1 @ ?x) m1)"
        unfolding m2 by (rule update_commute [OF L nL])
      then have "\<exists>v'. AList.update ls (b1 @ ?x) m2 = AList.update L v' (AList.update ls (b1 @ ?x) m1)"
        by blast
      then show ?thesis
        using ok L unfolding step_body [OF False b1] step_body [OF False b2] differ_at_def cursor_ok_def
        by (simp add: AList.dom_update)
    qed
  qed
qed

lemma loop_differ_at:
  "differ_at L s1 s2 \<Longrightarrow>
   \<exists>s1' s2'. extract_loop U s1 raws = Inr s1' \<and> extract_loop U s2 raws = Inr s2' \<and>
             differ_at L s1' s2'"
proof (induction raws arbitrary: s1 s2)
  case Nil
  then show ?case by simp
next
  case (Cons raw raws)
  obtain ls m1 where s1: "s1 = (ls, m1)" by (cases s1)
  obtain ls2 m2 where s2: "s2 = (ls2, m2)" by (cases s2)
  have ls2: "ls2 = ls" using Cons.prems s1 s2 by (simp add: differ_at_def)
  from step_differ_at [of L ls m1 m2 U raw] Cons.prems s1 s2 ls2
  obtain ls' m1' m2' where
    a: "extract_step U (ls, m1) raw = Inr (ls', m1')" and
    b: "extract_step U (ls, m2) raw = Inr (ls', m2')" and
    c: "differ_at L (ls', m1') (ls', m2')" by blast
  show ?case using Cons.IH [OF c] a b s1 s2 ls2 by simp
qed

lemma find_longest_match_empty: "find_longest_match [] b 0 0 0 bhi = (0, 0, 0)"
  by (simp add: find_longest_match_def)

lemma matching_size_empty: "matching_size [] b 0 0 0 bhi = 0"
  by (subst matching_size.simps) (simp add: find_longest_match_empty)

lemma ratio_empty: "b \<noteq> [] \<Longrightarrow> ratio [] b = 0"
  by (simp add: ratio_def matching_size_empty)

lemma lower_latin1_nonempty: "name \<noteq> [] \<Longrightarrow> list_all latin1 name \<Longrightarrow> lower U name \<noteq> []"
  by (simp add: lower_def)

lemma compare_empty: "lower U name \<noteq> [] \<Longrightarrow> compare U [] name = 0"
  by (simp add: compare_def lower_def ratio_empty)

lemma find_secton_preamble_only:
  "lower U name \<noteq> [] \<Longrightarrow> 0 < min_conf \<Longrightarrow>
   find_secton U name [([], body)] min_conf = Inr None"
  by (simp add: find_secton_def compare_empty)

lemma assembler_calls_no_match:
  "list_all (\<lambda>(name, min_conf). find_secton U name [([], body)] min_conf = Inr None)
     assembler_calls"
proof -
  have "list_all (\<lambda>(name, min_conf). lower U name \<noteq> [] \<and> 0 < min_conf) assembler_calls"
    by code_simp
  then show ?thesis
    unfolding list_all_iff using find_secton_preamble_only by fastforce
qed

text \<open>
  Claim C7: a document none of whose lines is a heading line yields the Section Map with the
  single entry of the preamble, and on that map the resolver returns no match for each call
  the assembler makes (\<open>author\<close>, \<open>description\<close>, \<open>examples\<close>, \<open>usage\<close> at 0.5;
  \<open>require\<close>, \<open>exclude\<close> at 0.9), and for every non-empty field name of characters below
  256 at every positive threshold.
\<close>

theorem no_heading_no_match:
  assumes "\<forall>raw\<in>set (split_nl doc). \<not> is_heading U raw"
  shows "\<exists>body. extract_sections U doc = Inr [([], body)] \<and>
           list_all (\<lambda>(name, min_conf). find_secton U name [([], body)] min_conf = Inr None)
             assembler_calls \<and>
           (\<forall>name min_conf. name \<noteq> [] \<longrightarrow> list_all latin1 name \<longrightarrow> 0 < min_conf \<longrightarrow>
              find_secton U name [([], body)] min_conf = Inr None)"
  using extract_lines_no_heading [OF assms] find_secton_preamble_only lower_latin1_nonempty
    assembler_calls_no_match
  by (simp add: extract_sections_def)

theorem no_heading_no_match_witness:
  "\<forall>U. list_all (\<lambda>raw. \<not> is_heading U raw) (split_nl (str ''just'' @ [NL] @ str '' text '' @ [160])) \<and>
     extract_sections U (str ''just'' @ [NL] @ str '' text '' @ [160]) =
       Inr [([], str ''just'' @ [NL] @ str ''text'')] \<and>
     find_secton U (str ''require'') [([], str ''just'' @ [NL] @ str ''text'')] (9 / 10) = Inr None"
proof
  fix U
  let ?doc = "str ''just'' @ [NL] @ str '' text '' @ [160]"
  have l: "list_all (\<lambda>raw. \<not> is_heading U raw) (split_nl ?doc)" by code_simp
  then have h: "\<forall>raw\<in>set (split_nl ?doc). \<not> is_heading U raw" by (simp add: list_all_iff)
  have e: "extract_sections U ?doc = Inr [([], str ''just'' @ [NL] @ str ''text'')]"
    by code_simp
  have n: "str ''require'' \<noteq> [] \<and> list_all latin1 (str ''require'')" by code_simp
  from no_heading_no_match [OF h] e n
  have "find_secton U (str ''require'') [([], str ''just'' @ [NL] @ str ''text'')] (9 / 10) = Inr None"
    by auto
  then show "list_all (\<lambda>raw. \<not> is_heading U raw) (split_nl ?doc) \<and>
     extract_sections U ?doc = Inr [([], str ''just'' @ [NL] @ str ''text'')] \<and>
     find_secton U (str ''require'') [([], str ''just'' @ [NL] @ str ''text'')] (9 / 10) = Inr None"
    using l e by blast
qed

lemma strip_all:
  assumes "\<forall>c\<in>set s. P c"
  shows "strip P s = []"
proof -
  have d: "dropWhile P s = []" using assms by (simp add: dropWhile_eq_Nil_conv)
  show ?thesis unfolding strip_def lstrip_def rstrip_def d by simp
qed

lemma init_step_empty_label:
  "is_heading U h \<Longrightarrow> label_of U h = [] \<Longrightarrow> extract_step U ([], [([], [])]) h = Inr ([], [([], [])])"
  by (simp add: step_heading)

text \<open>The binding of a label after a heading line with that label depends only on the lines
  that follow the heading.\<close>

lemma binding_after_heading:
  assumes "is_heading U h"
  shows "\<exists>m m' body. extract_lines U (pre @ h # post) = Inr m \<and> extract_lines U (h # post) = Inr m' \<and>
           map_of m (label_of U h) = Some body \<and> map_of m' (label_of U h) = Some body"
proof -
  let ?L = "label_of U h"
  let ?init = "([], [([], [])]) :: ustr \<times> sections"
  obtain st where p: "extract_loop U ?init pre = Inr st" and ok: "cursor_ok st"
    using loop_ok [OF init_ok, of U pre] by blast
  obtain ls m0 where st: "st = (ls, m0)" by (cases st)
  let ?s1 = "(?L, AList.update ?L [] m0)"
  let ?s2 = "(?L, AList.update ?L [] [([], [])])"
  have sb: "same_binding ?L ?s1 ?s2"
    using ok st by (simp add: same_binding_def cursor_ok_def AList.dom_update AList.update_conv')
  from loop_same_binding [OF sb, of U post] obtain s1' s2' where
    l1: "extract_loop U ?s1 post = Inr s1'" and l2: "extract_loop U ?s2 post = Inr s2'" and
    sb': "same_binding ?L s1' s2'" by blast
  obtain c1 m1 where s1': "s1' = (c1, m1)" by (cases s1')
  obtain c2 m2 where s2': "s2' = (c2, m2)" by (cases s2')
  have full: "extract_loop U ?init (pre @ h # post) = Inr (c1, m1)"
    using p st l1 s1' step_heading [OF assms, of ls m0] by (simp add: loop_append)
  have part: "extract_loop U ?init (h # post) = Inr (c2, m2)"
    using l2 s2' step_heading [OF assms, of "[]" "[([], [])]"] by simp
  from extract_lines_lookup [OF full] obtain r1 where
    r1: "extract_lines U (pre @ h # post) = Inr r1"
        "\<forall>k. map_of r1 k = map_option (strip (isspace U)) (map_of m1 k)" by blast
  from extract_lines_lookup [OF part] obtain r2 where
    r2: "extract_lines U (h # post) = Inr r2"
        "\<forall>k. map_of r2 k = map_option (strip (isspace U)) (map_of m2 k)" by blast
  have eq: "map_of m1 ?L = map_of m2 ?L" using sb' s1' s2' by (simp add: same_binding_def)
  have "?L \<in> fst ` set m2"
  proof -
    have "differ_at ?L ?s2 ?s2"
      by (simp add: differ_at_def cursor_ok_def AList.dom_update)
    from loop_differ_at [OF this, of U post] l2 s2' show ?thesis by (auto simp: differ_at_def)
  qed
  from key_has_value [OF this] obtain v where v: "map_of m2 ?L = Some v" by blast
  have "map_of r1 ?L = Some (strip (isspace U) v)" using r1(2) eq v by simp
  moreover have "map_of r2 ?L = Some (strip (isspace U) v)" using r2(2) v by simp
  ultimately show ?thesis using r1(1) r2(1) by blast
qed

text \<open>
  Claim C9: a heading line made of heading markers and spaces only has the empty label. The
  empty-key entry of the result is then the one of the document made of the lines after that
  heading alone: what the lines before it had accumulated under the empty key is discarded,
  and when no heading follows, the entry is the stripped text of the lines after it.
\<close>

theorem empty_label_resets_preamble:
  assumes "split_nl doc = pre @ h # post" and "is_heading U h"
    and "\<forall>c\<in>set (strip (isspace U) h). heading_char c"
  shows "label_of U h = [] \<and>
         (\<exists>m m' body. extract_sections U doc = Inr m \<and> extract_lines U post = Inr m' \<and>
            map_of m [] = Some body \<and> map_of m' [] = Some body \<and>
            ((\<forall>raw\<in>set post. \<not> is_heading U raw) \<longrightarrow> body = strip (isspace U) (body_text U post)))"
proof -
  have L: "label_of U h = []" unfolding label_of_def using assms(3) by (rule strip_all)
  have same: "extract_lines U (h # post) = extract_lines U post"
    using init_step_empty_label [OF assms(2) L] by (simp add: extract_lines_def)
  from binding_after_heading [OF assms(2), of pre post] obtain m m' body where
    b: "extract_lines U (pre @ h # post) = Inr m" "extract_lines U post = Inr m'"
       "map_of m [] = Some body" "map_of m' [] = Some body"
    unfolding L same by blast
  have "body = strip (isspace U) (body_text U post)" if "\<forall>raw\<in>set post. \<not> is_heading U raw"
    using extract_lines_no_heading [OF that] b(2,4) by simp
  then show ?thesis using L b assms(1) unfolding extract_sections_def by auto
qed

theorem empty_label_resets_preamble_witness:
  "\<forall>U. split_nl (str ''intro'' @ [NL] @ str '' # '' @ [NL] @ str ''body'') =
         [str ''intro''] @ str '' # '' # [str ''body''] \<and>
       is_heading U (str '' # '') \<and>
       list_all heading_char (strip (isspace U) (str '' # '')) \<and>
       list_all (\<lambda>raw. \<not> is_heading U raw) [str ''body''] \<and>
       label_of U (str '' # '') = [] \<and>
       (\<exists>m. extract_sections U (str ''intro'' @ [NL] @ str '' # '' @ [NL] @ str ''body'') = Inr m \<and>
            map_of m [] = Some (str ''body'')) \<and>
       split_nl (str ''#'' @ [NL, 160] @ str ''# T'' @ [NL] @ str ''x'') =
         [] @ str ''#'' # [160 # str ''# T'', str ''x''] \<and>
       (\<exists>m. extract_sections U (str ''#'' @ [NL, 160] @ str ''# T'' @ [NL] @ str ''x'') = Inr m \<and>
            map_of m [] = Some [] \<and> map_of m (str ''T'') = Some (str ''x''))"
proof
  fix U
  let ?doc = "str ''intro'' @ [NL] @ str '' # '' @ [NL] @ str ''body''"
  let ?doc' = "str ''#'' @ [NL, 160] @ str ''# T'' @ [NL] @ str ''x''"
  have a: "split_nl ?doc = [str ''intro''] @ str '' # '' # [str ''body'']" by code_simp
  have b: "is_heading U (str '' # '')" by code_simp
  have c: "list_all heading_char (strip (isspace U) (str '' # ''))" by code_simp
  then have c': "\<forall>c\<in>set (strip (isspace U) (str '' # '')). heading_char c"
    by (simp add: list_all_iff)
  have d: "list_all (\<lambda>raw. \<not> is_heading U raw) [str ''body'']" by code_simp
  then have d': "\<forall>raw\<in>set [str ''body'']. \<not> is_heading U raw" by (simp add: list_all_iff)
  have t: "strip (isspace U) (body_text U [str ''body'']) = str ''body''" by code_simp
  from empty_label_resets_preamble [OF a b c'] obtain n body' where
    q: "label_of U (str '' # '') = []" "extract_sections U ?doc = Inr n"
       "map_of n [] = Some body'"
       "(\<forall>raw\<in>set [str ''body'']. \<not> is_heading U raw) \<longrightarrow>
          body' = strip (isspace U) (body_text U [str ''body''])"
    by blast
  have "body' = str ''body''" using q(4) d' t by simp
  then have one: "label_of U (str '' # '') = [] \<and>
             (\<exists>m. extract_sections U ?doc = Inr m \<and> map_of m [] = Some (str ''body''))"
    using q(1,2,3) by blast
  have a2: "split_nl ?doc' = [] @ str ''#'' # [160 # str ''# T'', str ''x'']" by code_simp
  have b2: "is_heading U (str ''#'')" by code_simp
  have c2: "\<forall>c\<in>set (strip (isspace U) (str ''#'')). heading_char c" by code_simp
  have e2: "extract_lines U [160 # str ''# T'', str ''x''] = Inr [(str ''T'', str ''x''), ([], [])]"
    by code_simp
  have f2: "extract_sections U ?doc' = Inr [(str ''T'', str ''x''), ([], [])]" by code_simp
  have g2: "map_of [(str ''T'', str ''x''), ([], [])] (str ''T'') = Some (str ''x'')" by code_simp
  have h2: "map_of [(str ''T'', str ''x''), ([], [])] [] = Some []" by code_simp
  from empty_label_resets_preamble [OF a2 b2 c2] obtain m m' body where
    r: "extract_sections U ?doc' = Inr m" "extract_lines U [160 # str ''# T'', str ''x''] = Inr m'"
       "map_of m [] = Some body" "map_of m' [] = Some body"
    by blast
  have "m' = [(str ''T'', str ''x''), ([], [])]" using r(2) e2 by simp
  then have "body = []" using r(4) h2 by simp
  moreover have "m = [(str ''T'', str ''x''), ([], [])]" using r(1) f2 by simp
  ultimately have two: "\<exists>m. extract_sections U ?doc' = Inr m \<and> map_of m [] = Some [] \<and>
                 map_of m (str ''T'') = Some (str ''x'')"
    using r(1,3) g2 by blast
  show "split_nl ?doc = [str ''intro''] @ str '' # '' # [str ''body''] \<and>
       is_heading U (str '' # '') \<and>
       list_all heading_char (strip (isspace U) (str '' # '')) \<and>
       list_all (\<lambda>raw. \<not> is_heading U raw) [str ''body''] \<and>
       label_of U (str '' # '') = [] \<and>
       (\<exists>m. extract_sections U ?doc = Inr m \<and> map_of m [] = Some (str ''body'')) \<and>
       split_nl ?doc' = [] @ str ''#'' # [160 # str ''# T'', str ''x''] \<and>
       (\<exists>m. extract_sections U ?doc' = Inr m \<and> map_of m [] = Some [] \<and>
            map_of m (str ''T'') = Some (str ''x''))"
    using a b c d one a2 two by blast
qed

lemma binding_no_heading_after:
  assumes "is_heading U h" and "\<forall>raw\<in>set post. \<not> is_heading U raw"
    and "extract_lines U (h # post) = Inr m'"
  shows "map_of m' (label_of U h) = Some (strip (isspace U) (body_text U post))"
proof -
  let ?L = "label_of U h"
  let ?m = "AList.update ?L [] [([], [])]"
  have "map_of ?m ?L = Some []" by (simp add: AList.update_conv')
  from loop_no_heading [OF assms(2) this]
  have l: "extract_loop U ([], [([], [])]) (h # post) = Inr (?L, AList.update ?L (body_text U post) ?m)"
    using step_heading [OF assms(1), of "[]" "[([], [])]"] by simp
  from extract_lines_lookup [OF l] assms(3) show ?thesis by (simp add: AList.update_conv')
qed

lemma loop_skips_overwritten_body:
  assumes "is_heading U h1" and "is_heading U h2" and "label_of U h1 = label_of U h2"
    and "\<forall>raw\<in>set body1. \<not> is_heading U raw"
  shows "extract_loop U ([], [([], [])]) (pre @ h1 # body1 @ mid @ h2 # post) =
         extract_loop U ([], [([], [])]) (pre @ h1 # mid @ h2 # post)"
proof -
  let ?L = "label_of U h1"
  let ?init = "([], [([], [])]) :: ustr \<times> sections"
  obtain st where p: "extract_loop U ?init pre = Inr st" and ok: "cursor_ok st"
    using loop_ok [OF init_ok, of U pre] by blast
  obtain ls m0 where st: "st = (ls, m0)" by (cases st)
  let ?mA = "AList.update ?L [] m0"
  have h1: "extract_step U (ls, m0) h1 = Inr (?L, ?mA)" by (rule step_heading [OF assms(1)])
  have okA: "cursor_ok (?L, ?mA)" using ok st by (simp add: cursor_ok_def AList.dom_update)
  have "map_of ?mA ?L = Some []" by (simp add: AList.update_conv')
  from loop_no_heading [OF assms(4) this]
  have b1: "extract_loop U (?L, ?mA) body1 = Inr (?L, AList.update ?L (body_text U body1) ?mA)"
    by simp
  have d: "differ_at ?L (?L, ?mA) (?L, AList.update ?L (body_text U body1) ?mA)"
    unfolding differ_at_def using okA by (auto simp: cursor_ok_def)
  from loop_differ_at [OF d, of U mid] obtain s1 s2 where
    m1: "extract_loop U (?L, ?mA) mid = Inr s1" and
    m2: "extract_loop U (?L, AList.update ?L (body_text U body1) ?mA) mid = Inr s2" and
    d': "differ_at ?L s1 s2" by blast
  obtain c n1 where s1: "s1 = (c, n1)" by (cases s1)
  obtain c2 n2 where s2: "s2 = (c2, n2)" by (cases s2)
  from d' s1 s2 obtain v where c2: "c2 = c" and n2: "n2 = AList.update ?L v n1"
    by (auto simp: differ_at_def)
  have e1: "extract_step U (c, n1) h2 = Inr (?L, AList.update ?L [] n1)"
    using step_heading [OF assms(2), of c n1] assms(3) by simp
  have e2: "extract_step U (c, n2) h2 = Inr (?L, AList.update ?L [] n1)"
    using step_heading [OF assms(2), of c n2] assms(3) by (simp add: n2)
  have long: "extract_loop U ?init (pre @ h1 # body1 @ mid @ h2 # post) =
              extract_loop U (?L, AList.update ?L [] n1) post"
    using p st h1 b1 m2 s2 c2 e2 by (simp add: loop_append)
  have short: "extract_loop U ?init (pre @ h1 # mid @ h2 # post) =
               extract_loop U (?L, AList.update ?L [] n1) post"
    using p st h1 m1 s1 e1 by (simp add: loop_append)
  show ?thesis using long short by simp
qed

text \<open>
  Claim C10: when a label occurs on two heading lines, the result binds the label to what
  the document made of the second heading and the lines after it alone binds it to (the
  stripped text of those lines when no heading follows), and the body lines that follow the
  first occurrence are absent from the output: the result is the one of the document
  without them.
\<close>

theorem repeated_label_rebinds:
  assumes "split_nl doc = pre @ h1 # body1 @ mid @ h2 # post"
    and "is_heading U h1" and "is_heading U h2" and "label_of U h1 = label_of U h2"
    and "\<forall>raw\<in>set body1. \<not> is_heading U raw"
  shows "\<exists>m m' body. extract_sections U doc = Inr m \<and> extract_lines U (h2 # post) = Inr m' \<and>
           map_of m (label_of U h2) = Some body \<and> map_of m' (label_of U h2) = Some body \<and>
           extract_lines U (pre @ h1 # mid @ h2 # post) = Inr m \<and>
           ((\<forall>raw\<in>set post. \<not> is_heading U raw) \<longrightarrow> body = strip (isspace U) (body_text U post))"
proof -
  have split: "pre @ h1 # body1 @ mid @ h2 # post = (pre @ h1 # body1 @ mid) @ h2 # post"
    by simp
  from binding_after_heading [OF assms(3), of "pre @ h1 # body1 @ mid" post]
  obtain m m' body where
    b: "extract_lines U (pre @ h1 # body1 @ mid @ h2 # post) = Inr m"
       "extract_lines U (h2 # post) = Inr m'"
       "map_of m (label_of U h2) = Some body" "map_of m' (label_of U h2) = Some body"
    unfolding split by blast
  have same: "extract_lines U (pre @ h1 # mid @ h2 # post) = Inr m"
    using b(1) loop_skips_overwritten_body [OF assms(2-5), of pre mid post]
    by (simp add: extract_lines_def)
  have "body = strip (isspace U) (body_text U post)" if "\<forall>raw\<in>set post. \<not> is_heading U raw"
    using binding_no_heading_after [OF assms(3) that b(2)] b(4) by simp
  then show ?thesis using b same assms(1) unfolding extract_sections_def by auto
qed

theorem repeated_label_rebinds_witness:
  "\<forall>U. split_nl (str ''# Usage'' @ [NL] @ str ''old text'' @ [NL] @ str ''## About'' @ [NL] @
                  str ''me'' @ [NL] @ str ''#Usage #'' @ [NL] @ str ''new text'') =
         [] @ str ''# Usage'' # [str ''old text''] @ [str ''## About'', str ''me''] @
           str ''#Usage #'' # [str ''new text''] \<and>
       is_heading U (str ''# Usage'') \<and> is_heading U (str ''#Usage #'') \<and>
       label_of U (str ''# Usage'') = label_of U (str ''#Usage #'') \<and>
       list_all (\<lambda>raw. \<not> is_heading U raw) [str ''old text''] \<and>
       list_all (\<lambda>raw. \<not> is_heading U raw) [str ''new text''] \<and>
       (\<exists>m. extract_sections U (str ''# Usage'' @ [NL] @ str ''old text'' @ [NL] @ str ''## About'' @
                  [NL] @ str ''me'' @ [NL] @ str ''#Usage #'' @ [NL] @ str ''new text'') = Inr m \<and>
            map_of m (str ''Usage'') = Some (str ''new text'') \<and>
            extract_lines U ([] @ str ''# Usage'' # [str ''## About'', str ''me''] @
                             str ''#Usage #'' # [str ''new text'']) = Inr m) \<and>
       label_of U (str ''#'' @ [160] @ str '' #'') \<noteq> label_of U (str ''#'' @ [160]) \<and>
       extract_sections U (str ''#'' @ [160] @ str '' #'' @ [NL] @ str ''old'' @ [NL] @ str ''#'' @
                           [160, NL] @ str ''new'') =
         Inr [([160], str ''old''), ([], str ''new'')]"
proof
  fix U
  let ?doc = "str ''# Usage'' @ [NL] @ str ''old text'' @ [NL] @ str ''## About'' @ [NL] @
              str ''me'' @ [NL] @ str ''#Usage #'' @ [NL] @ str ''new text''"
  have a: "split_nl ?doc =
     [] @ str ''# Usage'' # [str ''old text''] @ [str ''## About'', str ''me''] @
       str ''#Usage #'' # [str ''new text'']"
    by code_simp
  have b: "is_heading U (str ''# Usage'')" by code_simp
  have c: "is_heading U (str ''#Usage #'')" by code_simp
  have d: "label_of U (str ''# Usage'') = label_of U (str ''#Usage #'')" by code_simp
  have e: "list_all (\<lambda>raw. \<not> is_heading U raw) [str ''old text'']" by code_simp
  then have e': "\<forall>raw\<in>set [str ''old text'']. \<not> is_heading U raw" by (simp add: list_all_iff)
  have f: "list_all (\<lambda>raw. \<not> is_heading U raw) [str ''new text'']" by code_simp
  then have f': "\<forall>raw\<in>set [str ''new text'']. \<not> is_heading U raw" by (simp add: list_all_iff)
  have l: "label_of U (str ''#Usage #'') = str ''Usage''" by code_simp
  have t: "strip (isspace U) (body_text U [str ''new text'']) = str ''new text''" by code_simp
  from repeated_label_rebinds [OF a b c d e'] f'
  have r: "\<exists>m. extract_sections U ?doc = Inr m \<and>
             map_of m (str ''Usage'') = Some (str ''new text'') \<and>
             extract_lines U ([] @ str ''# Usage'' # [str ''## About'', str ''me''] @
                              str ''#Usage #'' # [str ''new text'']) = Inr m"
    unfolding l t by blast
  have n: "label_of U (str ''#'' @ [160] @ str '' #'') \<noteq> label_of U (str ''#'' @ [160])"
    by code_simp
  have x: "extract_sections U (str ''#'' @ [160] @ str '' #'' @ [NL] @ str ''old'' @ [NL] @ str ''#'' @
                           [160, NL] @ str ''new'') =
         Inr [([160], str ''old''), ([], str ''new'')]"
    by code_simp
  show "split_nl ?doc =
         [] @ str ''# Usage'' # [str ''old text''] @ [str ''## About'', str ''me''] @
           str ''#Usage #'' # [str ''new text''] \<and>
       is_heading U (str ''# Usage'') \<and> is_heading U (str ''#Usage #'') \<and>
       label_of U (str ''# Usage'') = label_of U (str ''#Usage #'') \<and>
       list_all (\<lambda>raw. \<not> is_heading U raw) [str ''old text''] \<and>
       list_all (\<lambda>raw. \<not> is_heading U raw) [str ''new text''] \<and>
       (\<exists>m. extract_sections U ?doc = Inr m \<and>
            map_of m (str ''Usage'') = Some (str ''new text'') \<and>
            extract_lines U ([] @ str ''# Usage'' # [str ''## About'', str ''me''] @
                             str ''#Usage #'' # [str ''new text'']) = Inr m) \<and>
       label_of U (str ''#'' @ [160] @ str '' #'') \<noteq> label_of U (str ''#'' @ [160]) \<and>
       extract_sections U (str ''#'' @ [160] @ str '' #'' @ [NL] @ str ''old'' @ [NL] @ str ''#'' @
                           [160, NL] @ str ''new'') =
         Inr [([160], str ''old''), ([], str ''new'')]"
    using a b c d e f r n x by blast
qed

section \<open>Properties of the Fuzzy Section Resolver\<close>

lemma foldl_first_max:
  fixes x :: "ustr \<times> rat"
  shows "\<exists>i<length (x # xs).
           foldl (\<lambda>best y. if snd best < snd y then y else best) x xs = (x # xs) ! i \<and>
           (\<forall>j<length (x # xs). snd ((x # xs) ! j) \<le> snd ((x # xs) ! i)) \<and>
           (\<forall>j<i. snd ((x # xs) ! j) < snd ((x # xs) ! i))"
proof (induction xs rule: rev_induct)
  case Nil
  then show ?case by simp
next
  case (snoc y xs)
  let ?f = "\<lambda>best y. if snd best < snd (y :: ustr \<times> rat) then y else best"
  let ?l = "x # xs"
  from snoc obtain i where i: "i < length ?l" and b: "foldl ?f x xs = ?l ! i"
    and mx: "\<forall>j<length ?l. snd (?l ! j) \<le> snd (?l ! i)"
    and fs: "\<forall>j<i. snd (?l ! j) < snd (?l ! i)" by blast
  have nth: "\<And>j. j < length ?l \<Longrightarrow> (?l @ [y]) ! j = ?l ! j"
    using nth_append [of ?l "[y]"] by simp
  have last: "(?l @ [y]) ! length ?l = y"
    using nth_append_length [of ?l y "[]"] by simp
  show ?case
  proof (cases "snd (?l ! i) < snd y")
    case True
    have "foldl ?f x (xs @ [y]) = (?l @ [y]) ! length ?l" using b True last by simp
    moreover have "\<forall>j<length (?l @ [y]). snd ((?l @ [y]) ! j) \<le> snd ((?l @ [y]) ! length ?l)"
    proof (intro allI impI)
      fix j assume "j < length (?l @ [y])"
      then consider "j < length ?l" | "j = length ?l" by fastforce
      then show "snd ((?l @ [y]) ! j) \<le> snd ((?l @ [y]) ! length ?l)"
      proof cases
        case 1
        then have "snd (?l ! j) \<le> snd (?l ! i)" using mx by blast
        then show ?thesis using True nth [OF 1] last by simp
      next
        case 2
        then show ?thesis by simp
      qed
    qed
    moreover have "\<forall>j<length ?l. snd ((?l @ [y]) ! j) < snd ((?l @ [y]) ! length ?l)"
    proof (intro allI impI)
      fix j assume j: "j < length ?l"
      then have "snd (?l ! j) \<le> snd (?l ! i)" using mx by blast
      then show "snd ((?l @ [y]) ! j) < snd ((?l @ [y]) ! length ?l)"
        using True nth [OF j] last by simp
    qed
    ultimately have "length ?l < length (x # xs @ [y]) \<and>
        foldl ?f x (xs @ [y]) = (x # xs @ [y]) ! length ?l \<and>
        (\<forall>j<length (x # xs @ [y]). snd ((x # xs @ [y]) ! j) \<le> snd ((x # xs @ [y]) ! length ?l)) \<and>
        (\<forall>j<length ?l. snd ((x # xs @ [y]) ! j) < snd ((x # xs @ [y]) ! length ?l))"
      by simp
    then show ?thesis by blast
  next
    case False
    have "foldl ?f x (xs @ [y]) = (?l @ [y]) ! i" using b False nth [OF i] by simp
    moreover have "\<forall>j<length (?l @ [y]). snd ((?l @ [y]) ! j) \<le> snd ((?l @ [y]) ! i)"
    proof (intro allI impI)
      fix j assume "j < length (?l @ [y])"
      then consider "j < length ?l" | "j = length ?l" by fastforce
      then show "snd ((?l @ [y]) ! j) \<le> snd ((?l @ [y]) ! i)"
      proof cases
        case 1
        then have "snd (?l ! j) \<le> snd (?l ! i)" using mx by blast
        then show ?thesis using nth [OF 1] nth [OF i] by simp
      next
        case 2
        then show ?thesis using False last nth [OF i] by simp
      qed
    qed
    moreover have "\<forall>j<i. snd ((?l @ [y]) ! j) < snd ((?l @ [y]) ! i)"
    proof (intro allI impI)
      fix j assume j: "j < i"
      then have jl: "j < length ?l" using i by simp
      have "snd (?l ! j) < snd (?l ! i)" using fs j by blast
      then show "snd ((?l @ [y]) ! j) < snd ((?l @ [y]) ! i)" using nth [OF jl] nth [OF i] by simp
    qed
    ultimately have "i < length (x # xs @ [y]) \<and>
        foldl ?f x (xs @ [y]) = (x # xs @ [y]) ! i \<and>
        (\<forall>j<length (x # xs @ [y]). snd ((x # xs @ [y]) ! j) \<le> snd ((x # xs @ [y]) ! i)) \<and>
        (\<forall>j<i. snd ((x # xs @ [y]) ! j) < snd ((x # xs @ [y]) ! i))"
      using i by simp
    then show ?thesis by blast
  qed
qed

lemma max_conf_first_max:
  assumes "xs \<noteq> []"
  shows "\<exists>i<length xs. max_conf xs = Inr (xs ! i) \<and>
           (\<forall>j<length xs. snd (xs ! j) \<le> snd (xs ! i)) \<and>
           (\<forall>j<i. snd (xs ! j) < snd (xs ! i))"
proof -
  obtain x ys where xs: "xs = x # ys" using assms by (cases xs) auto
  show ?thesis unfolding xs max_conf.simps using foldl_first_max [of x ys] by blast
qed

lemma compare_same_lower:
  "lower U t = lower U t' \<Longrightarrow> compare U t name = compare U t' name"
  by (simp add: compare_def)

lemma lower_latin1: "list_all latin1 t \<Longrightarrow> lower U t = map latin1_lower t"
  by (simp add: lower_def)

text \<open>
  Claim C3: on a non-empty Section Map (a dictionary: its keys are distinct), the resolver
  compares the field name with every label, the empty one included. It selects the first
  label in iteration order whose ratio no other label exceeds. It returns no match exactly
  when that ratio is strictly below the threshold, and the body bound to the label, as it
  is, otherwise; a ratio equal to the threshold is accepted. The comparison is
  case-insensitive: the ratio is taken on the lower-cased strings, so labels with the same
  lower-casing have the same ratio, and below 256 lower-casing is the table
  \<open>latin1_lower\<close>. The instances show a label in capitals selected over an earlier label
  with a lower ratio, a ratio equal to the threshold accepted, a ratio below it refused, and
  the first of two labels with equal ratios selected.
\<close>

theorem find_secton_first_max:
  assumes "sections \<noteq> []" and "distinct (map fst sections)"
  shows "(\<exists>i<length sections.
           (\<forall>j<length sections.
              compare U (fst (sections ! j)) name \<le> compare U (fst (sections ! i)) name) \<and>
           (\<forall>j<i. compare U (fst (sections ! j)) name < compare U (fst (sections ! i)) name) \<and>
           find_secton U name sections min_conf =
             (if compare U (fst (sections ! i)) name < min_conf then Inr None
              else Inr (Some (snd (sections ! i))))) \<and>
         (\<forall>t. compare U t name = ratio (lower U t) (lower U name)) \<and>
         (\<forall>t t'. lower U t = lower U t' \<longrightarrow> compare U t name = compare U t' name) \<and>
         (\<forall>t. list_all latin1 t \<longrightarrow> lower U t = map latin1_lower t) \<and>
         compare U (str ''EXAMPLES'') (str ''examples'') = 1 \<and>
         compare U (str ''Usage'') (str ''examples'') = 2 / 13 \<and>
         compare U [201] [233] = 1 \<and>
         find_secton U (str ''examples'') [(str ''Usage'', b1), (str ''EXAMPLES'', b2), ([], b3)] (1 / 2)
           = Inr (Some b2) \<and>
         compare U (str ''AC'') (str ''ab'') = 1 / 2 \<and>
         find_secton U (str ''ab'') [(str ''AC'', b1), ([], b3)] (1 / 2) = Inr (Some b1) \<and>
         find_secton U (str ''ab'') [(str ''AC'', b1), ([], b3)] (51 / 100) = Inr None \<and>
         find_secton U (str ''ab'') [(str ''ac'', b1), (str ''AD'', b2), ([], b3)] (1 / 2)
           = Inr (Some b1)"
proof -
  let ?xs = "map (\<lambda>(title, body). (title, compare U title name)) sections"
  have ne: "?xs \<noteq> []" using assms(1) by simp
  from max_conf_first_max [OF ne] obtain i where i: "i < length sections"
    and m: "max_conf ?xs = Inr (?xs ! i)"
    and mx: "\<forall>j<length ?xs. snd (?xs ! j) \<le> snd (?xs ! i)"
    and fs: "\<forall>j<i. snd (?xs ! j) < snd (?xs ! i)" by auto
  have nth: "\<And>j. j < length sections \<Longrightarrow>
      ?xs ! j = (fst (sections ! j), compare U (fst (sections ! j)) name)"
    by (simp add: case_prod_beta)
  have g: "getitem sections (fst (sections ! i)) = Inr (snd (sections ! i))"
  proof -
    have "(fst (sections ! i), snd (sections ! i)) \<in> set sections" using i by simp
    then have "map_of sections (fst (sections ! i)) = Some (snd (sections ! i))"
      by (rule map_of_is_SomeI [OF assms(2)])
    then show ?thesis by (simp add: getitem_def)
  qed
  have a: "\<forall>j<length sections.
             compare U (fst (sections ! j)) name \<le> compare U (fst (sections ! i)) name"
    using mx nth i by simp
  have b: "\<forall>j<i. compare U (fst (sections ! j)) name < compare U (fst (sections ! i)) name"
  proof (intro allI impI)
    fix j assume j: "j < i"
    then have "snd (?xs ! j) < snd (?xs ! i)" using fs by blast
    moreover have "j < length sections" using j i by simp
    ultimately show "compare U (fst (sections ! j)) name < compare U (fst (sections ! i)) name"
      using nth i by simp
  qed
  have c: "find_secton U name sections min_conf =
             (if compare U (fst (sections ! i)) name < min_conf then Inr None
              else Inr (Some (snd (sections ! i))))"
    unfolding find_secton_def m nth [OF i] using g by simp
  have sel: "\<exists>i<length sections.
           (\<forall>j<length sections.
              compare U (fst (sections ! j)) name \<le> compare U (fst (sections ! i)) name) \<and>
           (\<forall>j<i. compare U (fst (sections ! j)) name < compare U (fst (sections ! i)) name) \<and>
           find_secton U name sections min_conf =
             (if compare U (fst (sections ! i)) name < min_conf then Inr None
              else Inr (Some (snd (sections ! i))))"
    using i a b c by blast
  have d: "\<forall>t. compare U t name = ratio (lower U t) (lower U name)"
    by (simp add: compare_def)
  have e: "\<forall>t t'. lower U t = lower U t' \<longrightarrow> compare U t name = compare U t' name"
    using compare_same_lower by blast
  have f: "\<forall>t. list_all latin1 t \<longrightarrow> lower U t = map latin1_lower t"
    using lower_latin1 by blast
  have c1: "compare U (str ''EXAMPLES'') (str ''examples'') = 1" by code_simp
  have c2: "compare U (str ''Usage'') (str ''examples'') = 2 / 13" by code_simp
  have c3: "compare U [201] [233] = 1" by code_simp
  have c4: "find_secton U (str ''examples'')
              [(str ''Usage'', b1), (str ''EXAMPLES'', b2), ([], b3)] (1 / 2) = Inr (Some b2)"
    by code_simp
  have c5: "compare U (str ''AC'') (str ''ab'') = 1 / 2" by code_simp
  have c6: "find_secton U (str ''ab'') [(str ''AC'', b1), ([], b3)] (1 / 2) = Inr (Some b1)"
    by code_simp
  have c7: "find_secton U (str ''ab'') [(str ''AC'', b1), ([], b3)] (51 / 100) = Inr None"
    by code_simp
  have c8: "find_secton U (str ''ab'') [(str ''ac'', b1), (str ''AD'', b2), ([], b3)] (1 / 2)
              = Inr (Some b1)"
    by code_simp
  show ?thesis using sel d e f c1 c2 c3 c4 c5 c6 c7 c8 by blast
qed

theorem find_secton_first_max_witness:
  "\<forall>U. [(str ''Usage'', str ''u''), (str ''EXAMPLES'', str ''e''), ([], [])] \<noteq> [] \<and>
       distinct (map fst [(str ''Usage'', str ''u''), (str ''EXAMPLES'', str ''e''), ([], [])]) \<and>
       list_all latin1 (str ''EXAMPLES'') \<and>
       lower U (str ''EXAMPLES'') = str ''examples'' \<and>
       find_secton U (str ''examples'')
         [(str ''Usage'', str ''u''), (str ''EXAMPLES'', str ''e''), ([], [])] (1 / 2) =
         Inr (Some (str ''e''))"
proof
  fix U
  let ?s = "[(str ''Usage'', str ''u''), (str ''EXAMPLES'', str ''e''), ([], [])] :: sections"
  let ?n = "str ''examples''"
  have a: "?s \<noteq> []" by simp
  have b: "distinct (map fst ?s)" by code_simp
  have l: "list_all latin1 (str ''EXAMPLES'')" by code_simp
  have ml: "map latin1_lower (str ''EXAMPLES'') = str ''examples''" by code_simp
  have k0: "compare U (fst (?s ! 0)) ?n = 2 / 13" by code_simp
  have k1: "compare U (fst (?s ! 1)) ?n = 1" by code_simp
  have k2: "compare U (fst (?s ! 2)) ?n = 0" by code_simp
  have v: "snd (?s ! 1) = str ''e''" by simp
  note t = find_secton_first_max [OF a b, of U ?n "1 / 2"]
  from t obtain i where
    i: "i < length ?s" and
    mx: "\<forall>j<length ?s. compare U (fst (?s ! j)) ?n \<le> compare U (fst (?s ! i)) ?n" and
    r: "find_secton U ?n ?s (1 / 2) =
          (if compare U (fst (?s ! i)) ?n < 1 / 2 then Inr None else Inr (Some (snd (?s ! i))))"
    by blast
  have "(1 :: nat) < length ?s" by simp
  with mx have "compare U (fst (?s ! 1)) ?n \<le> compare U (fst (?s ! i)) ?n" by blast
  then have big: "1 \<le> compare U (fst (?s ! i)) ?n" unfolding k1 .
  have "i = 0 \<or> i = 1 \<or> i = 2" using i by auto
  then have "i = 1"
  proof (elim disjE)
    assume "i = 0" then show ?thesis using big k0 by simp
  next
    assume "i = 1" then show ?thesis .
  next
    assume "i = 2" then show ?thesis using big k2 by simp
  qed
  then have res: "find_secton U ?n ?s (1 / 2) = Inr (Some (str ''e''))"
    using r k1 v by simp
  from t l ml have "lower U (str ''EXAMPLES'') = str ''examples''" by simp
  then show "?s \<noteq> [] \<and> distinct (map fst ?s) \<and> list_all latin1 (str ''EXAMPLES'') \<and>
       lower U (str ''EXAMPLES'') = str ''examples'' \<and>
       find_secton U ?n ?s (1 / 2) = Inr (Some (str ''e''))"
    using a b l res by blast
qed

section \<open>Properties of the Title Resolver\<close>

text \<open>
  Claim C6: on a Section Map (not empty, with a preamble entry), the Title Resolver compares
  the normalized first key with the normalized target name; normalizing lower-cases and
  turns hyphens into spaces. At a ratio of 0.3 or more it returns the first key with its
  first character upper-cased and the body bound to it; below 0.3 it returns the
  title-cased normalized target name and the preamble body. For the target
  \<open>weather-skill\<close>, the first heading \<open>weather\<close> has the ratio 7/10 and gives the title
  \<open>Weather\<close>; the first heading \<open>Overview\<close> has the ratio 2/7 and gives the title
  \<open>Weather Skill\<close> with the preamble.
\<close>

theorem find_title_info_threshold:
  assumes "sections \<noteq> []" and "map_of sections [] = Some preamble"
  shows "find_title_info U sections skill_name =
           (if 3 / 10 \<le> compare U (norm U (fst (hd sections))) (norm U skill_name)
            then Inr (upper U (take 1 (fst (hd sections))) @ drop 1 (fst (hd sections)),
                      snd (hd sections))
            else Inr (py_title U (norm U skill_name), preamble)) \<and>
         norm U skill_name = map (\<lambda>c. if c = HYPHEN then SP else c) (lower U skill_name) \<and>
         norm U (str ''Weather-Skill'') = str ''weather skill'' \<and>
         py_title U (str ''weather skill'') = str ''Weather Skill'' \<and>
         compare U (norm U (str ''weather'')) (norm U (str ''weather-skill'')) = 7 / 10 \<and>
         compare U (norm U (str ''Overview'')) (norm U (str ''weather-skill'')) = 2 / 7 \<and>
         find_title_info U [(str ''weather'', b), ([], p)] (str ''weather-skill'') =
           Inr (str ''Weather'', b) \<and>
         find_title_info U [(str ''Overview'', b), ([], p)] (str ''weather-skill'') =
           Inr (str ''Weather Skill'', p)"
proof -
  obtain t body rest where s: "sections = (t, body) # rest"
    using assms(1) by (cases sections) auto
  have g: "getitem sections t = Inr body" by (simp add: s getitem_def)
  have q: "getitem sections [] = Inr preamble" using assms(2) by (simp add: getitem_def)
  have main: "find_title_info U sections skill_name =
           (if 3 / 10 \<le> compare U (norm U (fst (hd sections))) (norm U skill_name)
            then Inr (upper U (take 1 (fst (hd sections))) @ drop 1 (fst (hd sections)),
                      snd (hd sections))
            else Inr (py_title U (norm U skill_name), preamble))"
    using g q unfolding find_title_info_def caps_def by (simp add: s)
  have n: "norm U skill_name = map (\<lambda>c. if c = HYPHEN then SP else c) (lower U skill_name)"
    by (simp add: norm_def replace_hyphen_def)
  have e1: "norm U (str ''Weather-Skill'') = str ''weather skill''" by code_simp
  have e2: "py_title U (str ''weather skill'') = str ''Weather Skill''" by code_simp
  have e3: "compare U (norm U (str ''weather'')) (norm U (str ''weather-skill'')) = 7 / 10"
    by code_simp
  have e4: "compare U (norm U (str ''Overview'')) (norm U (str ''weather-skill'')) = 2 / 7"
    by code_simp
  have e5: "find_title_info U [(str ''weather'', b), ([], p)] (str ''weather-skill'') =
           Inr (str ''Weather'', b)"
    by code_simp
  have e6: "find_title_info U [(str ''Overview'', b), ([], p)] (str ''weather-skill'') =
           Inr (str ''Weather Skill'', p)"
    by code_simp
  show ?thesis using main n e1 e2 e3 e4 e5 e6 by blast
qed

theorem find_title_info_threshold_witness:
  "\<forall>U. [(str ''weather'', str ''about''), ([], str ''lead'')] \<noteq> [] \<and>
       map_of [(str ''weather'', str ''about''), ([], str ''lead'')] [] = Some (str ''lead'') \<and>
       find_title_info U [(str ''weather'', str ''about''), ([], str ''lead'')] (str ''weather-skill'') =
         Inr (str ''Weather'', str ''about'') \<and>
       [(str ''Overview'', str ''about''), ([], str ''lead'')] \<noteq> [] \<and>
       map_of [(str ''Overview'', str ''about''), ([], str ''lead'')] [] = Some (str ''lead'') \<and>
       find_title_info U [(str ''Overview'', str ''about''), ([], str ''lead'')] (str ''weather-skill'') =
         Inr (str ''Weather Skill'', str ''lead'')"
proof
  fix U
  let ?w = "[(str ''weather'', str ''about''), ([], str ''lead'')] :: sections"
  let ?o = "[(str ''Overview'', str ''about''), ([], str ''lead'')] :: sections"
  let ?n = "str ''weather-skill''"
  have a: "?w \<noteq> []" by simp
  have b: "map_of ?w [] = Some (str ''lead'')" by code_simp
  have c: "compare U (norm U (fst (hd ?w))) (norm U ?n) = 7 / 10" by code_simp
  have d: "upper U (take 1 (fst (hd ?w))) @ drop 1 (fst (hd ?w)) = str ''Weather''" by code_simp
  have a': "?o \<noteq> []" by simp
  have b': "map_of ?o [] = Some (str ''lead'')" by code_simp
  have c': "compare U (norm U (fst (hd ?o))) (norm U ?n) = 2 / 7" by code_simp
  have d': "py_title U (norm U ?n) = str ''Weather Skill''" by code_simp
  have "find_title_info U ?w ?n = Inr (str ''Weather'', str ''about'')"
    using find_title_info_threshold [OF a b, of U ?n] c d by simp
  moreover have "find_title_info U ?o ?n = Inr (str ''Weather Skill'', str ''lead'')"
    using find_title_info_threshold [OF a' b', of U ?n] c' d' by simp
  ultimately show "?w \<noteq> [] \<and> map_of ?w [] = Some (str ''lead'') \<and>
       find_title_info U ?w ?n = Inr (str ''Weather'', str ''about'') \<and>
       ?o \<noteq> [] \<and> map_of ?o [] = Some (str ''lead'') \<and>
       find_title_info U ?o ?n = Inr (str ''Weather Skill'', str ''lead'')"
    using a b a' b' by blast
qed

section \<open>Properties of the Example Extractor\<close>

text \<open>
  Claim C4: for the document of the specification, a heading \<open>Examples\<close> followed by the
  bullets \<open>turn on the lights\<close> and \<open>hey mycroft, what time is it\<close>, the pipeline of
  \<open>extract_sections\<close>, \<open>find_examples\<close> and \<open>parse_example\<close> yields the two utterances
  \<open>Turn on the lights.\<close> and \<open>What time is it?\<close>, in this order.
\<close>

theorem examples_of_spec_document:
  "examples_of U (str ''# Examples'' @ [NL] @ str ''- turn on the lights'' @ [NL] @
                  str ''- hey mycroft, what time is it'') =
   Inr [str ''Turn on the lights.'', str ''What time is it?'']"
  by code_simp

text \<open>
  Claim C2 says that the question inference fires for each of the six suffix forms. The
  suffix list of the source lacks a comma, so the forms \<open>d\<close> and \<open>'re\<close> are not in it: a
  candidate that starts with \<open>what're\<close> or \<open>whatd\<close> gets a period, while the forms
  \<open>'s\<close>, \<open>s\<close>, none, \<open>'d\<close> and \<open>re\<close> get the question mark.
\<close>

theorem parse_example_suffix_slip:
  "parse_example U (str ''what'' @ [SQUOTE] @ str ''re you doing'') =
     str ''What'' @ [SQUOTE] @ str ''re you doing.'' \<and>
   parse_example U (str ''whatd you say'') = str ''Whatd you say.'' \<and>
   parse_example U (str ''what'' @ [SQUOTE] @ str ''s up.'') = str ''What'' @ [SQUOTE] @ str ''s up?'' \<and>
   parse_example U (str ''whats up'') = str ''Whats up?'' \<and>
   parse_example U (str ''what is up?'') = str ''What is up?'' \<and>
   parse_example U (str ''what'' @ [SQUOTE] @ str ''d you say'') =
     str ''What'' @ [SQUOTE] @ str ''d you say?'' \<and>
   parse_example U (str ''whatre you doing'') = str ''Whatre you doing?''"
  by code_simp

end
